theory Spec2Isabelle
  imports Main
begin

section \<open>Data model\<close>

text \<open>
  The plugin's settings object (\<open>GoogleDriveSyncSettings\<close>). Times are epoch milliseconds.
\<close>

datatype conflict_policy = Overwrite | KeepLocal | KeepRemote | Ask

record sync_settings =
  clientId :: string
  clientSecret :: string
  folderId :: string
  refreshToken :: string
  lastSyncTime :: int
  syncInterval :: int
  autoSync :: bool
  conflictResolution :: conflict_policy

definition DEFAULT_SETTINGS :: sync_settings where
  "DEFAULT_SETTINGS =
     \<lparr>clientId = [], clientSecret = [], folderId = [], refreshToken = [],
      lastSyncTime = 0, syncInterval = 15, autoSync = True, conflictResolution = Overwrite\<rparr>"

text \<open>
  A vault file (\<open>TFile\<close>): \<open>path\<close>, \<open>name\<close>, \<open>stat.mtime\<close>, \<open>stat.size\<close>.
\<close>

record tfile =
  tf_path :: string
  tf_name :: string
  tf_mtime :: int
  tf_size :: int

text \<open>
  An entry of the recursive Drive listing. \<open>df_modifiedTime\<close> is
  \<open>new Date(driveFile.modifiedTime).getTime()\<close>; \<open>df_size\<close> is \<open>parseInt(driveFile.size)\<close>,
  with \<open>None\<close> for \<open>NaN\<close> (Drive sends no size for its native documents).
\<close>

record dfile =
  df_id :: string
  df_name :: string
  df_path :: string
  df_modifiedTime :: int
  df_size :: "int option"
  df_mimeType :: string

record counts =
  uploaded :: nat
  downloaded :: nat
  conflicts :: nat
  deleted :: nat

section \<open>The outside world\<close>

text \<open>
  Every call that leaves the plugin (an HTTP request, a vault read or write, a token
  refresh, saving the settings) is logged as one event, in order. The reply to the call
  logged at position \<open>n\<close> is read from the environment at index \<open>n\<close>, so the environment
  is free to answer every call differently: nothing is assumed about Drive.
  \<open>CreateFolder\<close> also records the cumulative path the folder is created for (the request
  itself carries only the name and the parent id). \<open>VaultRead\<close> is the read of an upload,
  \<open>CompareRead\<close> and \<open>CompareGet\<close> are the read and the download of the content
  comparison, \<open>DownloadGet\<close> is the download of \<open>downloadFile\<close>.
\<close>

datatype event =
    GetAccessToken
  | ValidateFolder
  | ListDrive
  | VaultRead tfile
  | CompareRead tfile
  | VaultWrite string
  | FindFolder string string
  | CreateFolder string string string
  | UploadCreate tfile string
  | UploadUpdate tfile string
  | DownloadGet dfile
  | CompareGet dfile
  | DeleteReq dfile
  | ShowConflictModal string dfile
  | SaveData

text \<open>
  A \<open>fetch\<close> either rejects (\<open>Thrown\<close>), or resolves with a non-OK status, or with an
  OK response and its payload.
\<close>

datatype 'a response = Thrown | NotOk nat | Ok 'a

datatype error =
    Rejected event
  | NoAccessToken
  | UploadTokenFailed
  | DownloadTokenFailed
  | ConflictTokenFailed
  | FolderNotFound
  | AccessDenied
  | FolderAccessFailed nat
  | NotAFolder
  | ListFailed nat
  | UploadFailed nat
  | DownloadFailed nat
  | CreateFolderFailed nat

record env =
  token_r :: "nat \<Rightarrow> string option"
  validate_r :: "nat \<Rightarrow> string response"
  list_r :: "nat \<Rightarrow> dfile list response"
  read_r :: "nat \<Rightarrow> string option"
  write_r :: "nat \<Rightarrow> unit option"
  find_r :: "nat \<Rightarrow> string list response"
  create_r :: "nat \<Rightarrow> string response"
  upload_r :: "nat \<Rightarrow> unit response"
  download_r :: "nat \<Rightarrow> string response"
  delete_r :: "nat \<Rightarrow> unit response"
  save_r :: "nat \<Rightarrow> unit option"
  md5 :: "string \<Rightarrow> string"

text \<open>
  The plugin object: the settings in memory, the settings last written by \<open>saveData\<close>,
  the folder cache, and the log of calls.
\<close>

record state =
  settings :: sync_settings
  saved :: sync_settings
  folderIdCache :: "string \<rightharpoonup> string"
  trace :: "event list"

type_synonym 'a prog = "state \<Rightarrow> (error + 'a) \<times> state"

definition returnE :: "'a \<Rightarrow> 'a prog" where
  "returnE x s = (Inr x, s)"

definition throwE :: "error \<Rightarrow> 'a prog" where
  "throwE e s = (Inl e, s)"

definition bindE :: "'a prog \<Rightarrow> ('a \<Rightarrow> 'b prog) \<Rightarrow> 'b prog" where
  "bindE m f s = (case m s of (Inl e, s') \<Rightarrow> (Inl e, s') | (Inr x, s') \<Rightarrow> f x s')"

definition request :: "(nat \<Rightarrow> 'r) \<Rightarrow> event \<Rightarrow> state \<Rightarrow> 'r \<times> state" where
  "request reply e s = (reply (length (trace s)), s\<lparr>trace := trace s @ [e]\<rparr>)"

text \<open>A \<open>fetch\<close> followed by \<open>if (!response.ok) throw\<close>.\<close>

definition fetch :: "(nat \<Rightarrow> 'a response) \<Rightarrow> event \<Rightarrow> (nat \<Rightarrow> error) \<Rightarrow> 'a prog" where
  "fetch reply e notok s =
     (case request reply e s of
        (Thrown, s') \<Rightarrow> (Inl (Rejected e), s')
      | (NotOk c, s') \<Rightarrow> (Inl (notok c), s')
      | (Ok x, s') \<Rightarrow> (Inr x, s'))"

text \<open>An awaited local call that either rejects or returns a value.\<close>

definition await :: "(nat \<Rightarrow> 'a option) \<Rightarrow> event \<Rightarrow> 'a prog" where
  "await reply e s =
     (case request reply e s of
        (None, s') \<Rightarrow> (Inl (Rejected e), s')
      | (Some x, s') \<Rightarrow> (Inr x, s'))"

section \<open>Strings\<close>

text \<open>\<open>s.split(c)\<close> for a one-character separator: never the empty array.\<close>

fun split_on :: "char \<Rightarrow> string \<Rightarrow> string list" where
  "split_on c [] = [[]]"
| "split_on c (x # xs) =
     (if x = c then [] # split_on c xs
      else (case split_on c xs of [] \<Rightarrow> [[x]] | y # ys \<Rightarrow> (x # y) # ys))"

text \<open>\<open>s.lastIndexOf(c)\<close>, for a string that contains \<open>c\<close>.\<close>

definition lastIndexOf :: "char \<Rightarrow> string \<Rightarrow> nat" where
  "lastIndexOf c s = length s - Suc (length (takeWhile (\<lambda>x. x \<noteq> c) (rev s)))"

text \<open>
  \<open>path.includes('/') ? path.substring(0, path.lastIndexOf('/')) : ''\<close>
\<close>

definition folderOf :: "string \<Rightarrow> string" where
  "folderOf p = (if CHR ''/'' \<in> set p then take (lastIndexOf CHR ''/'' p) p else [])"

text \<open>
  \<open>toLowerCase\<close> on the letters A to Z. No character outside ASCII lowers to a letter of
  the extensions tested below, so the other characters are left alone.
\<close>

definition lower_char :: "char \<Rightarrow> char" where
  "lower_char c =
     (if 65 \<le> (of_char c :: nat) \<and> (of_char c :: nat) \<le> 90
      then char_of ((of_char c :: nat) + 32) else c)"

definition toLowerCase :: "string \<Rightarrow> string" where
  "toLowerCase s = map lower_char s"

definition startsWith :: "string \<Rightarrow> string \<Rightarrow> bool" where
  "startsWith s t = (take (length t) s = t)"

definition getMimeType :: "string \<Rightarrow> string" where
  "getMimeType filename =
     (case rev (split_on CHR ''.'' filename) of
        [] \<Rightarrow> ''application/octet-stream''
      | e # _ \<Rightarrow>
         (let ext = toLowerCase e in
          if ext = ''md'' then ''text/markdown''
          else if ext = ''txt'' then ''text/plain''
          else if ext = ''json'' then ''application/json''
          else if ext = ''png'' then ''image/png''
          else if ext = ''jpg'' \<or> ext = ''jpeg'' then ''image/jpeg''
          else if ext = ''gif'' then ''image/gif''
          else if ext = ''svg'' then ''image/svg+xml''
          else if ext = ''pdf'' then ''application/pdf''
          else if ext = ''dat'' then ''application/octet-stream''
          else ''application/octet-stream''))"

definition textTypes :: "string list" where
  "textTypes = [''text/'', ''application/json'', ''application/javascript'',
     ''application/xml'', ''application/x-yaml'', ''application/x-tex'',
     ''application/x-latex'']"

definition isBinaryFile :: "string \<Rightarrow> bool" where
  "isBinaryFile mimeType = (\<not> list_ex (\<lambda>t. startsWith mimeType t) textTypes)"

section \<open>Content comparison\<close>

text \<open>
  \<open>filesHaveIdenticalContent\<close>. The whole body sits in a \<open>try\<close> whose \<open>catch\<close> returns
  false, so the function never throws: it returns a boolean and the new state.
  \<open>driveSize\<close> is \<open>parseInt(driveFile.size) || 0\<close>.
\<close>

definition driveSize :: "dfile \<Rightarrow> int" where
  "driveSize driveFile = (case df_size driveFile of None \<Rightarrow> 0 | Some n \<Rightarrow> if n = 0 then 0 else n)"

definition filesHaveIdenticalContent :: "env \<Rightarrow> tfile \<Rightarrow> dfile \<Rightarrow> state \<Rightarrow> bool \<times> state" where
  "filesHaveIdenticalContent E vaultFile driveFile s =
     (if tf_size vaultFile \<noteq> driveSize driveFile then (False, s)
      else if tf_size vaultFile = 0 then (True, s)
      else if isBinaryFile (getMimeType (tf_name vaultFile)) then (True, s)
      else (case request (read_r E) (CompareRead vaultFile) s of
              (None, s1) \<Rightarrow> (False, s1)
            | (Some vaultContent, s1) \<Rightarrow>
               (case request (download_r E) (CompareGet driveFile) s1 of
                  (Thrown, s2) \<Rightarrow> (False, s2)
                | (NotOk c, s2) \<Rightarrow> (False, s2)
                | (Ok driveContent, s2) \<Rightarrow>
                    (md5 E vaultContent = md5 E driveContent, s2))))"

section \<open>Folder path materialization\<close>

text \<open>
  \<open>findDriveFolder\<close>: a rejected request propagates; a non-OK response is logged and
  answered with \<open>null\<close>; otherwise the id of the first folder listed, or \<open>null\<close>.
\<close>

definition findDriveFolder :: "env \<Rightarrow> string \<Rightarrow> string \<Rightarrow> string option prog" where
  "findDriveFolder E folderName parentId s =
     (case request (find_r E) (FindFolder folderName parentId) s of
        (Thrown, s') \<Rightarrow> (Inl (Rejected (FindFolder folderName parentId)), s')
      | (NotOk c, s') \<Rightarrow> (Inr None, s')
      | (Ok files, s') \<Rightarrow> (Inr (case files of [] \<Rightarrow> None | i # _ \<Rightarrow> Some i), s'))"

text \<open>
  \<open>createDriveFolder\<close>. The first argument is the cumulative path of the folder, kept
  for the log only.
\<close>

definition createDriveFolder :: "env \<Rightarrow> string \<Rightarrow> string \<Rightarrow> string \<Rightarrow> string prog" where
  "createDriveFolder E currentPath folderName parentId =
     fetch (create_r E) (CreateFolder currentPath folderName parentId) CreateFolderFailed"

definition cacheSet :: "string \<Rightarrow> string \<Rightarrow> unit prog" where
  "cacheSet k v s = (Inr (), s\<lparr>folderIdCache := (folderIdCache s)(k \<mapsto> v)\<rparr>)"

text \<open>\<open>currentPath ? `${currentPath}/${segment}` : segment\<close>\<close>

definition joinPath :: "string \<Rightarrow> string \<Rightarrow> string" where
  "joinPath currentPath segment =
     (if currentPath \<noteq> [] then currentPath @ ''/'' @ segment else segment)"

text \<open>
  The loop of \<open>ensureFolderPathExists\<close> over the remaining segments, from the current
  parent id and the current cumulative path. \<open>if (existingFolderId)\<close> is false for
  \<open>null\<close> and for the empty string.
\<close>

fun ensureSegments :: "env \<Rightarrow> string list \<Rightarrow> string \<Rightarrow> string \<Rightarrow> string prog" where
  "ensureSegments E [] currentParentId currentPath = returnE currentParentId"
| "ensureSegments E (segment # rest) currentParentId currentPath0 =
     (\<lambda>s. let currentPath = joinPath currentPath0 segment
          in (case folderIdCache s currentPath of
                Some i \<Rightarrow> ensureSegments E rest i currentPath s
              | None \<Rightarrow>
                 bindE (findDriveFolder E segment currentParentId)
                   (\<lambda>existingFolderId.
                      if existingFolderId \<noteq> None \<and> existingFolderId \<noteq> Some []
                      then bindE (cacheSet currentPath (the existingFolderId))
                             (\<lambda>_. ensureSegments E rest (the existingFolderId) currentPath)
                      else bindE (createDriveFolder E currentPath segment currentParentId)
                             (\<lambda>newFolderId.
                                bindE (cacheSet currentPath newFolderId)
                                  (\<lambda>_. ensureSegments E rest newFolderId currentPath))) s))"

text \<open>\<open>localPath.split('/').filter(s => s.length > 0)\<close>\<close>

definition segmentsOf :: "string \<Rightarrow> string list" where
  "segmentsOf p = filter (\<lambda>x. x \<noteq> []) (split_on CHR ''/'' p)"

definition ensureFolderPathExists :: "env \<Rightarrow> string \<Rightarrow> string prog" where
  "ensureFolderPathExists E localPath s =
     (case folderIdCache s localPath of
        Some i \<Rightarrow> (Inr i, s)
      | None \<Rightarrow>
         if localPath = [] \<or> localPath = ''.'' then (Inr (folderId (settings s)), s)
         else ensureSegments E (segmentsOf localPath) (folderId (settings s)) [] s)"

section \<open>Transfers\<close>

text \<open>
  \<open>uploadFileToFolder\<close>: read the vault file, then PATCH the existing object when a
  file id is given (and not empty), else POST a new object under the parent folder.
\<close>

definition uploadFileToFolder :: "env \<Rightarrow> tfile \<Rightarrow> string \<Rightarrow> string option \<Rightarrow> unit prog" where
  "uploadFileToFolder E file parentFolderId fileId =
     bindE (await (read_r E) (VaultRead file))
       (\<lambda>content.
          if fileId \<noteq> None \<and> fileId \<noteq> Some []
          then fetch (upload_r E) (UploadUpdate file (the fileId)) UploadFailed
          else fetch (upload_r E) (UploadCreate file parentFolderId) UploadFailed)"

text \<open>
  \<open>downloadFile\<close>: GET the content, then write it to the vault (errors of \<open>mkdir\<close> for
  the local folders are swallowed by the source and are not logged here).
\<close>

definition downloadFile :: "env \<Rightarrow> dfile \<Rightarrow> unit prog" where
  "downloadFile E driveFile =
     bindE (fetch (download_r E) (DownloadGet driveFile) DownloadFailed)
       (\<lambda>content. await (write_r E) (VaultWrite (df_path driveFile)))"

text \<open>\<open>auth.getAccessToken()\<close> followed by the check that the token is not empty.\<close>

definition freshToken :: "env \<Rightarrow> error \<Rightarrow> string prog" where
  "freshToken E err =
     bindE (await (token_r E) GetAccessToken)
       (\<lambda>tok. if tok = [] then throwE err else returnE tok)"

section \<open>Conflict resolution\<close>

text \<open>
  \<open>handleConflict\<close>. Under \<open>ask\<close> the function only opens the modal; the upload or the
  download happens later, in the callback the user picks.
\<close>

definition handleConflict :: "env \<Rightarrow> tfile \<Rightarrow> dfile \<Rightarrow> unit prog" where
  "handleConflict E vaultFile driveFile =
     bindE (freshToken E ConflictTokenFailed)
       (\<lambda>freshAccessToken s.
          (case conflictResolution (settings s) of
             Overwrite \<Rightarrow>
               bindE (ensureFolderPathExists E (folderOf (tf_path vaultFile)))
                 (\<lambda>overwriteParentId.
                    uploadFileToFolder E vaultFile overwriteParentId (Some (df_id driveFile))) s
           | KeepLocal \<Rightarrow> returnE () s
           | KeepRemote \<Rightarrow> downloadFile E driveFile s
           | Ask \<Rightarrow>
               (Inr (), snd (request (\<lambda>_. ()) (ShowConflictModal (tf_path vaultFile) driveFile) s))))"

section \<open>The reconciliation run\<close>

text \<open>The body of the loop over the vault files.\<close>

definition vaultStep ::
  "env \<Rightarrow> bool \<Rightarrow> int \<Rightarrow> (string \<rightharpoonup> dfile) \<Rightarrow> tfile \<Rightarrow> counts \<Rightarrow> counts prog" where
  "vaultStep E toDrive lastSync driveFileMap file c =
     (if toDrive then
        (case driveFileMap (tf_path file) of
           None \<Rightarrow>
             bindE (ensureFolderPathExists E (folderOf (tf_path file)))
               (\<lambda>parentFolderId.
                  bindE (uploadFileToFolder E file parentFolderId None)
                    (\<lambda>_. returnE (c\<lparr>uploaded := uploaded c + 1\<rparr>)))
         | Some driveFile \<Rightarrow>
             (let vaultChanged = (tf_mtime file > lastSync + 2000);
                  driveChanged = (df_modifiedTime driveFile > lastSync + 2000)
              in if vaultChanged \<and> driveChanged then
                   (\<lambda>s. case filesHaveIdenticalContent E file driveFile s of
                           (identicalContent, s1) \<Rightarrow>
                             if identicalContent then (Inr c, s1)
                             else bindE (handleConflict E file driveFile)
                                    (\<lambda>_. returnE (c\<lparr>conflicts := conflicts c + 1\<rparr>)) s1)
                 else if vaultChanged then
                   bindE (ensureFolderPathExists E (folderOf (tf_path file)))
                     (\<lambda>updateParentId.
                        bindE (uploadFileToFolder E file updateParentId (Some (df_id driveFile)))
                          (\<lambda>_. returnE (c\<lparr>uploaded := uploaded c + 1\<rparr>)))
                 else returnE c))
      else returnE c)"

text \<open>The DELETE request of the loop over the Drive files: a non-OK answer is only logged.\<close>

definition deleteRemote :: "env \<Rightarrow> dfile \<Rightarrow> counts \<Rightarrow> counts prog" where
  "deleteRemote E driveFile c s =
     (case request (delete_r E) (DeleteReq driveFile) s of
        (Thrown, s') \<Rightarrow> (Inl (Rejected (DeleteReq driveFile)), s')
      | (NotOk code, s') \<Rightarrow> (Inr c, s')
      | (Ok u, s') \<Rightarrow> (Inr (c\<lparr>deleted := deleted c + 1\<rparr>), s'))"

text \<open>The body of the loop over the Drive files.\<close>

definition driveStep ::
  "env \<Rightarrow> bool \<Rightarrow> bool \<Rightarrow> int \<Rightarrow> (string \<rightharpoonup> tfile) \<Rightarrow> string \<Rightarrow> dfile \<Rightarrow> counts \<Rightarrow> counts prog" where
  "driveStep E toDrive fromDrive lastSync vaultFileMap downloadAccessToken driveFile c =
     (case vaultFileMap (df_path driveFile) of
        None \<Rightarrow>
          if df_modifiedTime driveFile > lastSync + 2000 then
            (if fromDrive then
               bindE (downloadFile E driveFile)
                 (\<lambda>_. returnE (c\<lparr>downloaded := downloaded c + 1\<rparr>))
             else returnE c)
          else if toDrive then
            (if downloadAccessToken \<noteq> [] then deleteRemote E driveFile c else returnE c)
          else returnE c
      | Some vaultFile \<Rightarrow>
          (let driveChanged = (df_modifiedTime driveFile > lastSync + 2000);
               vaultChanged = (tf_mtime vaultFile > lastSync + 2000)
           in if driveChanged \<and> vaultChanged then returnE c
              else if driveChanged then
                bindE (downloadFile E driveFile)
                  (\<lambda>_. returnE (c\<lparr>downloaded := downloaded c + 1\<rparr>))
              else returnE c))"

text \<open>A \<open>for ... of\<close> loop that threads the counters and stops at the first throw.\<close>

fun forEachE :: "('x \<Rightarrow> 'c \<Rightarrow> 'c prog) \<Rightarrow> 'x list \<Rightarrow> 'c \<Rightarrow> 'c prog" where
  "forEachE step [] c = returnE c"
| "forEachE step (x # xs) c = bindE (step x c) (forEachE step xs)"

text \<open>\<open>for (const file of files) map.set(file.path, file)\<close>: the last entry of a path wins.\<close>

definition buildMap :: "('x \<Rightarrow> string) \<Rightarrow> 'x list \<Rightarrow> (string \<rightharpoonup> 'x)" where
  "buildMap key xs = foldl (\<lambda>m x. m(key x \<mapsto> x)) Map.empty xs"

definition validateDriveFolder :: "env \<Rightarrow> unit prog" where
  "validateDriveFolder E s =
     (case request (validate_r E) ValidateFolder s of
        (Thrown, s') \<Rightarrow> (Inl (Rejected ValidateFolder), s')
      | (NotOk code, s') \<Rightarrow>
          (Inl (if code = 404 then FolderNotFound
                else if code = 403 then AccessDenied
                else FolderAccessFailed code), s')
      | (Ok mimeType, s') \<Rightarrow>
          if mimeType \<noteq> ''application/vnd.google-apps.folder'' then (Inl NotAFolder, s')
          else (Inr (), s'))"

text \<open>
  \<open>getDriveFilesRecursive\<close>, taken as one call: the flattened listing, or the failure
  of one of its list requests.
\<close>

definition getDriveFilesRecursive :: "env \<Rightarrow> dfile list prog" where
  "getDriveFilesRecursive E = fetch (list_r E) ListDrive ListFailed"

definition saveSettings :: "env \<Rightarrow> unit prog" where
  "saveSettings E =
     bindE (await (save_r E) SaveData) (\<lambda>_ s. (Inr (), s\<lparr>saved := settings s\<rparr>))"

definition setLastSyncTime :: "int \<Rightarrow> unit prog" where
  "setLastSyncTime t s = (Inr (), s\<lparr>settings := (settings s)\<lparr>lastSyncTime := t\<rparr>\<rparr>)"

definition noCounts :: counts where
  "noCounts = \<lparr>uploaded = 0, downloaded = 0, conflicts = 0, deleted = 0\<rparr>"

text \<open>
  The part of \<open>performSync\<close> after the folder validation and before the write of the
  watermark: the cache is cleared, Drive is listed, and the two loops run.
  \<open>vaultFiles\<close> is what \<open>vault.getFiles()\<close> returns.
\<close>

definition syncTransfers :: "env \<Rightarrow> bool \<Rightarrow> bool \<Rightarrow> tfile list \<Rightarrow> counts prog" where
  "syncTransfers E toDrive fromDrive vaultFiles s0 =
     bindE (getDriveFilesRecursive E)
       (\<lambda>driveFiles s.
          (let vaultFileMap = buildMap tf_path vaultFiles;
               driveFileMap = buildMap df_path driveFiles;
               lastSync = lastSyncTime (settings s)
           in bindE (freshToken E UploadTokenFailed)
                (\<lambda>currentAccessToken.
                 bindE (forEachE (vaultStep E toDrive lastSync driveFileMap) vaultFiles noCounts)
                (\<lambda>c1.
                 bindE (freshToken E DownloadTokenFailed)
                (\<lambda>downloadAccessToken.
                 if fromDrive
                 then forEachE (driveStep E toDrive fromDrive lastSync vaultFileMap
                                  downloadAccessToken) driveFiles c1
                 else returnE c1))) s))
       (s0\<lparr>folderIdCache := Map.empty\<rparr>)"

text \<open>
  The rest of the \<open>try\<close> block: \<open>this.settings.lastSyncTime = Date.now()\<close>, then
  \<open>saveSettings\<close>. \<open>now\<close> is what \<open>Date.now()\<close> returns there.
\<close>

definition syncBody :: "env \<Rightarrow> bool \<Rightarrow> bool \<Rightarrow> tfile list \<Rightarrow> int \<Rightarrow> counts prog" where
  "syncBody E toDrive fromDrive vaultFiles now =
     bindE (syncTransfers E toDrive fromDrive vaultFiles)
       (\<lambda>c2. bindE (setLastSyncTime now)
          (\<lambda>_. bindE (saveSettings E)
             (\<lambda>_. returnE c2)))"

datatype outcome =
    NotConfigured
  | ValidationFailed error
  | SyncFailed error
  | Synced counts

text \<open>
  \<open>performSync\<close>: the configuration check, the first token, the folder validation
  (whose failure returns without reaching the outer \<open>catch\<close>), then the body.
\<close>

definition performSync ::
  "env \<Rightarrow> bool \<Rightarrow> bool \<Rightarrow> tfile list \<Rightarrow> int \<Rightarrow> state \<Rightarrow> outcome \<times> state" where
  "performSync E toDrive fromDrive vaultFiles now s =
     (if refreshToken (settings s) = [] \<or> folderId (settings s) = [] then (NotConfigured, s)
      else (case freshToken E NoAccessToken s of
              (Inl e, s1) \<Rightarrow> (SyncFailed e, s1)
            | (Inr accessToken, s1) \<Rightarrow>
               (case validateDriveFolder E s1 of
                  (Inl e, s2) \<Rightarrow> (ValidationFailed e, s2)
                | (Inr u, s2) \<Rightarrow>
                   (case syncBody E toDrive fromDrive vaultFiles now s2 of
                      (Inl e, s3) \<Rightarrow> (SyncFailed e, s3)
                    | (Inr c, s3) \<Rightarrow> (Synced c, s3)))))"

section \<open>Invariants of a run\<close>

text \<open>
  \<open>keeps I X f\<close>: from a state where \<open>I\<close> holds, \<open>f\<close> returns normally in a state where
  \<open>I\<close> holds, or throws in a state where \<open>X\<close> holds.
\<close>

definition keeps :: "(state \<Rightarrow> bool) \<Rightarrow> (state \<Rightarrow> bool) \<Rightarrow> 'a prog \<Rightarrow> bool" where
  "keeps I X f = (\<forall>s. I s \<longrightarrow> (case f s of (Inl e, s') \<Rightarrow> X s' | (Inr x, s') \<Rightarrow> I s'))"

definition logEvent :: "event \<Rightarrow> state \<Rightarrow> state" where
  "logEvent e s = s\<lparr>trace := trace s @ [e]\<rparr>"

definition isOk :: "'a response \<Rightarrow> bool" where
  "isOk r = (case r of Ok x \<Rightarrow> True | _ \<Rightarrow> False)"

text \<open>
  Whether the reply at index \<open>n\<close> lets the caller of the call \<open>e\<close> go on: the source
  throws on the other replies. The reads of the content comparison and the conflict
  modal never throw to the caller.
\<close>

definition proceeds :: "env \<Rightarrow> nat \<Rightarrow> event \<Rightarrow> bool" where
  "proceeds E n e =
     (case e of
        GetAccessToken \<Rightarrow> token_r E n \<noteq> None
      | ValidateFolder \<Rightarrow> isOk (validate_r E n)
      | ListDrive \<Rightarrow> isOk (list_r E n)
      | VaultRead f \<Rightarrow> read_r E n \<noteq> None
      | CompareRead f \<Rightarrow> True
      | VaultWrite p \<Rightarrow> write_r E n \<noteq> None
      | FindFolder a b \<Rightarrow> find_r E n \<noteq> Thrown
      | CreateFolder a b c \<Rightarrow> isOk (create_r E n)
      | UploadCreate f p \<Rightarrow> isOk (upload_r E n)
      | UploadUpdate f i \<Rightarrow> isOk (upload_r E n)
      | DownloadGet d \<Rightarrow> isOk (download_r E n)
      | CompareGet d \<Rightarrow> True
      | DeleteReq d \<Rightarrow> delete_r E n \<noteq> Thrown
      | ShowConflictModal p d \<Rightarrow> True
      | SaveData \<Rightarrow> save_r E n \<noteq> None)"

text \<open>
  The invariant \<open>I\<close> survives the call \<open>e\<close> when the caller goes on, and \<open>X\<close> holds
  after it when the caller throws.
\<close>

definition tolerates :: "env \<Rightarrow> (state \<Rightarrow> bool) \<Rightarrow> (state \<Rightarrow> bool) \<Rightarrow> event \<Rightarrow> bool" where
  "tolerates E I X e =
     (\<forall>s. I s \<longrightarrow> (if proceeds E (length (trace s)) e then I (logEvent e s)
                    else X (logEvent e s)))"

definition cacheFree :: "(state \<Rightarrow> bool) \<Rightarrow> bool" where
  "cacheFree I = (\<forall>s c. I s \<longrightarrow> I (s\<lparr>folderIdCache := c\<rparr>))"

definition isFolderEvent :: "event \<Rightarrow> bool" where
  "isFolderEvent e = (case e of FindFolder a b \<Rightarrow> True | CreateFolder a b c \<Rightarrow> True | _ \<Rightarrow> False)"

definition isUploadOf :: "tfile \<Rightarrow> event \<Rightarrow> bool" where
  "isUploadOf file e =
     (case e of VaultRead f \<Rightarrow> f = file | UploadCreate f p \<Rightarrow> f = file
              | UploadUpdate f i \<Rightarrow> f = file | _ \<Rightarrow> False)"

definition isDownloadOf :: "dfile \<Rightarrow> event \<Rightarrow> bool" where
  "isDownloadOf driveFile e =
     (case e of DownloadGet d \<Rightarrow> d = driveFile | VaultWrite p \<Rightarrow> p = df_path driveFile
              | _ \<Rightarrow> False)"

text \<open>Since the log was \<open>t0\<close>, only calls that satisfy \<open>P\<close> were made.\<close>

definition onlyLogged :: "event list \<Rightarrow> (event \<Rightarrow> bool) \<Rightarrow> state \<Rightarrow> bool" where
  "onlyLogged t0 P s = (\<exists>evs. trace s = t0 @ evs \<and> list_all P evs)"

text \<open>The same, for settings that satisfy \<open>K\<close>.\<close>

definition guarded ::
  "(sync_settings \<Rightarrow> bool) \<Rightarrow> event list \<Rightarrow> (event \<Rightarrow> bool) \<Rightarrow> state \<Rightarrow> bool" where
  "guarded K t0 P s = (K (settings s) \<and> onlyLogged t0 P s)"

definition isDownloadGet :: "event \<Rightarrow> bool" where
  "isDownloadGet e = (case e of DownloadGet d \<Rightarrow> True | _ \<Rightarrow> False)"

definition isDeleteReq :: "event \<Rightarrow> bool" where
  "isDeleteReq e = (case e of DeleteReq d \<Rightarrow> True | _ \<Rightarrow> False)"

text \<open>
  The calls made on behalf of an upload (folder lookup and creation, the read of the
  vault file, the upload request), of a download (the request and the write to the
  vault) and of a delete-remote.
\<close>

definition isTransferCall :: "event \<Rightarrow> bool" where
  "isTransferCall e =
     (case e of
        VaultRead f \<Rightarrow> True | VaultWrite p \<Rightarrow> True
      | FindFolder a b \<Rightarrow> True | CreateFolder a b c \<Rightarrow> True
      | UploadCreate f p \<Rightarrow> True | UploadUpdate f i \<Rightarrow> True
      | DownloadGet d \<Rightarrow> True | DeleteReq d \<Rightarrow> True
      | _ \<Rightarrow> False)"

text \<open>
  The settings in memory and on disk are \<open>cfg\<close> and \<open>sv\<close>, and every call logged since
  \<open>t0\<close> let its caller go on (\<open>transferring\<close>), or every call but the last (\<open>stopped\<close>).
\<close>

definition transferring ::
  "sync_settings \<Rightarrow> sync_settings \<Rightarrow> env \<Rightarrow> event list \<Rightarrow> state \<Rightarrow> bool" where
  "transferring cfg sv E t0 s =
     (settings s = cfg \<and> saved s = sv \<and>
      (\<exists>evs. trace s = t0 @ evs \<and> (\<forall>i<length evs. proceeds E (length t0 + i) (evs ! i))))"

definition stopped ::
  "sync_settings \<Rightarrow> sync_settings \<Rightarrow> env \<Rightarrow> event list \<Rightarrow> state \<Rightarrow> bool" where
  "stopped cfg sv E t0 s =
     (settings s = cfg \<and> saved s = sv \<and>
      (\<exists>evs. trace s = t0 @ evs \<and>
         (\<forall>i. Suc i < length evs \<longrightarrow> proceeds E (length t0 + i) (evs ! i))))"

text \<open>
  The cumulative paths the loop of \<open>ensureFolderPathExists\<close> forms from the current path
  over the remaining segments.
\<close>

fun cumPaths :: "string \<Rightarrow> string list \<Rightarrow> string list" where
  "cumPaths cur [] = []"
| "cumPaths cur (seg # rest) = joinPath cur seg # cumPaths (joinPath cur seg) rest"

text \<open>The cumulative paths of the folder creation requests of a log, in order.\<close>

fun createdPaths :: "event list \<Rightarrow> string list" where
  "createdPaths [] = []"
| "createdPaths (e # es) =
     (case e of CreateFolder cp n p \<Rightarrow> cp # createdPaths es | _ \<Rightarrow> createdPaths es)"

text \<open>
  Since the log was \<open>t0\<close>, no two creation requests were made for the same cumulative
  path, and every path a creation was requested for is in the cache (\<open>creatingOnce\<close>);
  or only the former, after a throw (\<open>createdOnce\<close>).
\<close>

definition creatingOnce :: "event list \<Rightarrow> state \<Rightarrow> bool" where
  "creatingOnce t0 s =
     (\<exists>evs. trace s = t0 @ evs \<and> distinct (createdPaths evs) \<and>
            set (createdPaths evs) \<subseteq> dom (folderIdCache s))"

definition createdOnce :: "event list \<Rightarrow> state \<Rightarrow> bool" where
  "createdOnce t0 s = (\<exists>evs. trace s = t0 @ evs \<and> distinct (createdPaths evs))"

definition isCreateFolder :: "event \<Rightarrow> bool" where
  "isCreateFolder e = (case e of CreateFolder cp n p \<Rightarrow> True | _ \<Rightarrow> False)"

section \<open>Concrete inputs\<close>

text \<open>
  A world where every call succeeds: Drive lists \<open>listing\<close>, every vault read returns
  \<open>localContent\<close>, every download returns \<open>remoteContent\<close>, no folder exists yet and the
  folder created by call \<open>n\<close> gets an id that depends on \<open>n\<close>. The digest is replaced by
  the content itself.
\<close>

definition worldOk :: "dfile list \<Rightarrow> string \<Rightarrow> string \<Rightarrow> env" where
  "worldOk listing localContent remoteContent =
     \<lparr>token_r = (\<lambda>n. Some ''token''),
      validate_r = (\<lambda>n. Ok ''application/vnd.google-apps.folder''),
      list_r = (\<lambda>n. Ok listing),
      read_r = (\<lambda>n. Some localContent),
      write_r = (\<lambda>n. Some ()),
      find_r = (\<lambda>n. Ok []),
      create_r = (\<lambda>n. Ok (''folder-'' @ replicate n CHR ''i'')),
      upload_r = (\<lambda>n. Ok ()),
      download_r = (\<lambda>n. Ok remoteContent),
      delete_r = (\<lambda>n. Ok ()),
      save_r = (\<lambda>n. Some ()),
      md5 = (\<lambda>content. content)\<rparr>"

definition pluginState :: "conflict_policy \<Rightarrow> int \<Rightarrow> state" where
  "pluginState policy watermark =
     \<lparr>settings = DEFAULT_SETTINGS\<lparr>folderId := ''root'', refreshToken := ''refresh'',
         lastSyncTime := watermark, conflictResolution := policy\<rparr>,
      saved = DEFAULT_SETTINGS\<lparr>folderId := ''root'', refreshToken := ''refresh'',
         lastSyncTime := watermark, conflictResolution := policy\<rparr>,
      folderIdCache = Map.empty,
      trace = []\<rparr>"

definition localNote :: "int \<Rightarrow> tfile" where
  "localNote mtime = \<lparr>tf_path = ''a.md'', tf_name = ''a.md'', tf_mtime = mtime, tf_size = 1\<rparr>"

definition remoteNote :: "int \<Rightarrow> dfile" where
  "remoteNote mtime =
     \<lparr>df_id = ''id-a'', df_name = ''a.md'', df_path = ''a.md'', df_modifiedTime = mtime,
      df_size = Some 1, df_mimeType = ''text/markdown''\<rparr>"

definition remoteOther :: "int \<Rightarrow> dfile" where
  "remoteOther mtime =
     \<lparr>df_id = ''id-b'', df_name = ''b.md'', df_path = ''b.md'', df_modifiedTime = mtime,
      df_size = Some 1, df_mimeType = ''text/markdown''\<rparr>"

text \<open>The same world, where every upload request is answered with status 500.\<close>

definition worldUploadFails :: env where
  "worldUploadFails = (worldOk [] ''X'' ''Y'')\<lparr>upload_r := (\<lambda>n. NotOk 500)\<rparr>"

text \<open>
  Drive lists two old files that the vault does not have, and answers every delete
  request with status 500.
\<close>

definition worldDeleteFails :: env where
  "worldDeleteFails =
     (worldOk [remoteNote 1600000000000, remoteOther 1600000000000] ''X'' ''Y'')
       \<lparr>delete_r := (\<lambda>n. NotOk 500)\<rparr>"

definition localNested :: tfile where
  "localNested =
     \<lparr>tf_path = ''notes/a.md'', tf_name = ''a.md'', tf_mtime = 1700000010000, tf_size = 1\<rparr>"

definition localDeep :: "string \<Rightarrow> tfile" where
  "localDeep name =
     \<lparr>tf_path = ''notes/2024/jan/'' @ name, tf_name = name, tf_mtime = 1700000010000,
      tf_size = 1\<rparr>"

text \<open>Worlds where every folder lookup, or every folder creation, is answered with an error status.\<close>

definition worldFindFails :: env where
  "worldFindFails = (worldOk [] ''X'' ''Y'')\<lparr>find_r := (\<lambda>n. NotOk 500)\<rparr>"

definition worldCreateFails :: env where
  "worldCreateFails = (worldOk [] ''X'' ''Y'')\<lparr>create_r := (\<lambda>n. NotOk 403)\<rparr>"

section \<open>Rules for invariants\<close>

lemma keeps_returnE: "keeps I X (returnE x)"
  by (simp add: keeps_def returnE_def)

lemma keeps_throwE: "(\<And>s. I s \<Longrightarrow> X s) \<Longrightarrow> keeps I X (throwE e)"
  by (simp add: keeps_def throwE_def)

lemma keeps_bindE:
  assumes "keeps I X m" and "\<And>x. keeps I X (f x)"
  shows "keeps I X (bindE m f)"
proof (unfold keeps_def, intro allI impI)
  fix s assume I: "I s"
  obtain r s1 where ms: "m s = (r, s1)" by (cases "m s")
  show "case bindE m f s of (Inl e, s') \<Rightarrow> X s' | (Inr x, s') \<Rightarrow> I s'"
  proof (cases r)
    case (Inl e)
    then show ?thesis using assms(1) I ms by (auto simp: bindE_def keeps_def)
  next
    case (Inr x)
    then have "I s1" using assms(1) I ms by (auto simp: keeps_def)
    then show ?thesis using assms(2) [of x] Inr ms by (auto simp: bindE_def keeps_def)
  qed
qed

lemma keeps_if: "(b \<Longrightarrow> keeps I X f) \<Longrightarrow> (\<not> b \<Longrightarrow> keeps I X g) \<Longrightarrow> keeps I X (if b then f else g)"
  by simp

lemma keepsD:
  "keeps I X f \<Longrightarrow> I s \<Longrightarrow> f s = (r, s') \<Longrightarrow> (case r of Inl e \<Rightarrow> X s' | Inr x \<Rightarrow> I s')"
  by (auto simp: keeps_def split: sum.splits)

lemma keeps_fetch:
  assumes "tolerates E I X e" and "\<And>n. proceeds E n e = isOk (reply n)"
  shows "keeps I X (fetch reply e notok)"
  using assms unfolding keeps_def fetch_def request_def logEvent_def tolerates_def isOk_def
  by (auto split: response.splits)

lemma keeps_await:
  assumes "tolerates E I X e" and "\<And>n. proceeds E n e = (reply n \<noteq> None)"
  shows "keeps I X (await reply e)"
  using assms unfolding keeps_def await_def request_def logEvent_def tolerates_def
  by (auto split: option.splits)

lemma keeps_forEachE:
  "(\<And>x c. x \<in> set xs \<Longrightarrow> keeps I X (step x c)) \<Longrightarrow> keeps I X (forEachE step xs c)"
proof (induction xs arbitrary: c)
  case Nil
  show ?case by (simp add: keeps_returnE)
next
  case (Cons x xs)
  have "keeps I X (step x c)" using Cons.prems by simp
  moreover have "\<And>c'. keeps I X (forEachE step xs c')"
    using Cons.IH Cons.prems by simp
  ultimately show ?case unfolding forEachE.simps by (rule keeps_bindE)
qed

lemma findDriveFolder_keeps:
  assumes "tolerates E I X (FindFolder n p)"
  shows "keeps I X (findDriveFolder E n p)"
  using assms
  unfolding keeps_def findDriveFolder_def request_def logEvent_def tolerates_def proceeds_def
  by (auto split: response.splits)

lemma createDriveFolder_keeps:
  assumes "tolerates E I X (CreateFolder cp n p)"
  shows "keeps I X (createDriveFolder E cp n p)"
  unfolding createDriveFolder_def
  by (rule keeps_fetch [OF assms]) (simp add: proceeds_def)

lemma cacheSet_keeps: "cacheFree I \<Longrightarrow> keeps I X (cacheSet k v)"
  by (simp add: keeps_def cacheSet_def cacheFree_def)

lemma ensureSegments_keeps:
  assumes tol: "\<And>e. isFolderEvent e \<Longrightarrow> tolerates E I X e" and cf: "cacheFree I"
  shows "keeps I X (ensureSegments E segs par cur)"
proof (induction segs arbitrary: par cur)
  case Nil
  show ?case by (simp add: keeps_returnE)
next
  case (Cons seg rest)
  define cp where "cp = joinPath cur seg"
  have rec: "\<And>i. keeps I X (ensureSegments E rest i cp)" by (rule Cons.IH)
  have fnd: "keeps I X (findDriveFolder E seg par)"
    by (rule findDriveFolder_keeps, rule tol) (simp add: isFolderEvent_def)
  have crt: "keeps I X (createDriveFolder E cp seg par)"
    by (rule createDriveFolder_keeps, rule tol) (simp add: isFolderEvent_def)
  define B where "B = bindE (findDriveFolder E seg par)
        (\<lambda>existingFolderId.
           if existingFolderId \<noteq> None \<and> existingFolderId \<noteq> Some []
           then bindE (cacheSet cp (the existingFolderId))
                  (\<lambda>_. ensureSegments E rest (the existingFolderId) cp)
           else bindE (createDriveFolder E cp seg par)
                  (\<lambda>newFolderId.
                     bindE (cacheSet cp newFolderId)
                       (\<lambda>_. ensureSegments E rest newFolderId cp)))"
  have body: "keeps I X B"
    unfolding B_def by (intro keeps_bindE keeps_if fnd crt rec cacheSet_keeps cf)
  show ?case
    unfolding keeps_def
  proof (intro allI impI)
    fix s assume I: "I s"
    show "case ensureSegments E (seg # rest) par cur s of
            (Inl e, s') \<Rightarrow> X s' | (Inr x, s') \<Rightarrow> I s'"
    proof (cases "folderIdCache s cp")
      case None
      then have "ensureSegments E (seg # rest) par cur s = B s"
        unfolding B_def cp_def by (simp add: Let_def)
      then show ?thesis using body I by (simp add: keeps_def)
    next
      case (Some i)
      then have "ensureSegments E (seg # rest) par cur s = ensureSegments E rest i cp s"
        unfolding cp_def by (simp add: Let_def)
      then show ?thesis using rec [of i] I by (simp add: keeps_def)
    qed
  qed
qed

lemma ensureFolderPathExists_keeps:
  assumes tol: "\<And>e. isFolderEvent e \<Longrightarrow> tolerates E I X e" and cf: "cacheFree I"
  shows "keeps I X (ensureFolderPathExists E p)"
  using ensureSegments_keeps [OF tol cf]
  by (auto simp: keeps_def ensureFolderPathExists_def split: option.splits)

lemma uploadFileToFolder_keeps:
  assumes tol: "\<And>e. isUploadOf file e \<Longrightarrow> tolerates E I X e"
  shows "keeps I X (uploadFileToFolder E file parent fileId)"
  unfolding uploadFileToFolder_def
  by (intro keeps_bindE keeps_if keeps_await [where E = E] keeps_fetch [where E = E] tol)
     (simp_all add: isUploadOf_def proceeds_def)

lemma downloadFile_keeps:
  assumes tol: "\<And>e. isDownloadOf d e \<Longrightarrow> tolerates E I X e"
  shows "keeps I X (downloadFile E d)"
  unfolding downloadFile_def
  by (intro keeps_bindE keeps_if keeps_await [where E = E] keeps_fetch [where E = E] tol)
     (simp_all add: isDownloadOf_def proceeds_def)

lemma freshToken_keeps:
  assumes "tolerates E I X GetAccessToken" and "\<And>s. I s \<Longrightarrow> X s"
  shows "keeps I X (freshToken E err)"
  unfolding freshToken_def
  by (intro keeps_bindE keeps_if keeps_await [where E = E] keeps_throwE keeps_returnE assms)
     (simp_all add: proceeds_def)

lemma filesHaveIdenticalContent_keeps:
  assumes "tolerates E I X (CompareRead f)" and "tolerates E I X (CompareGet d)" and "I s"
  shows "I (snd (filesHaveIdenticalContent E f d s))"
  using assms
  unfolding filesHaveIdenticalContent_def request_def tolerates_def proceeds_def logEvent_def
  by (auto split: option.splits response.splits)

lemma deleteRemote_keeps:
  assumes "tolerates E I X (DeleteReq d)"
  shows "keeps I X (deleteRemote E d c)"
  using assms
  unfolding keeps_def deleteRemote_def request_def logEvent_def tolerates_def proceeds_def
  by (auto split: response.splits)

lemma keeps_reads: "(\<And>v. keeps I X (F v)) \<Longrightarrow> keeps I X (\<lambda>s. F (g s) s)"
  by (simp add: keeps_def)

lemma keeps_reads_if:
  "(\<And>s. I s \<Longrightarrow> keeps I X (F (g s))) \<Longrightarrow> keeps I X (\<lambda>s. F (g s) s)"
  by (simp add: keeps_def)

lemma handleConflict_keeps:
  assumes tok: "tolerates E I X GetAccessToken" and sub: "\<And>s. I s \<Longrightarrow> X s"
    and ens: "\<And>p. keeps I X (ensureFolderPathExists E p)"
    and up: "\<And>e. isUploadOf f e \<Longrightarrow> tolerates E I X e"
    and dl: "\<And>s. I s \<Longrightarrow> conflictResolution (settings s) = KeepRemote
               \<Longrightarrow> keeps I X (downloadFile E d)"
    and modal: "tolerates E I X (ShowConflictModal (tf_path f) d)"
  shows "keeps I X (handleConflict E f d)"
  unfolding handleConflict_def
proof (rule keeps_bindE [OF freshToken_keeps [OF tok sub]])
  fix freshAccessToken :: string
  have ow: "keeps I X (bindE (ensureFolderPathExists E (folderOf (tf_path f)))
             (\<lambda>overwriteParentId. uploadFileToFolder E f overwriteParentId (Some (df_id d))))"
    by (intro keeps_bindE ens uploadFileToFolder_keeps up)
  show "keeps I X (\<lambda>s. case conflictResolution (settings s) of
            Overwrite \<Rightarrow>
              bindE (ensureFolderPathExists E (folderOf (tf_path f)))
                (\<lambda>overwriteParentId. uploadFileToFolder E f overwriteParentId (Some (df_id d))) s
          | KeepLocal \<Rightarrow> returnE () s
          | KeepRemote \<Rightarrow> downloadFile E d s
          | Ask \<Rightarrow> (Inr (), snd (request (\<lambda>_. ()) (ShowConflictModal (tf_path f) d) s)))"
    unfolding keeps_def
  proof (intro allI impI)
    fix s assume I: "I s"
    show "case (case conflictResolution (settings s) of
            Overwrite \<Rightarrow>
              bindE (ensureFolderPathExists E (folderOf (tf_path f)))
                (\<lambda>overwriteParentId. uploadFileToFolder E f overwriteParentId (Some (df_id d))) s
          | KeepLocal \<Rightarrow> returnE () s
          | KeepRemote \<Rightarrow> downloadFile E d s
          | Ask \<Rightarrow> (Inr (), snd (request (\<lambda>_. ()) (ShowConflictModal (tf_path f) d) s)))
          of (Inl e, s') \<Rightarrow> X s' | (Inr x, s') \<Rightarrow> I s'"
    proof (cases "conflictResolution (settings s)")
      case Overwrite
      then show ?thesis using ow I by (simp add: keeps_def)
    next
      case KeepLocal
      then show ?thesis using I by (simp add: returnE_def)
    next
      case KeepRemote
      then show ?thesis using dl [OF I] I by (simp add: keeps_def)
    next
      case Ask
      then show ?thesis using modal I
        by (simp add: tolerates_def proceeds_def request_def logEvent_def)
    qed
  qed
qed

lemma vaultStep_keeps:
  assumes ens: "\<And>p. keeps I X (ensureFolderPathExists E p)"
    and up: "\<And>e. isUploadOf f e \<Longrightarrow> tolerates E I X e"
    and cmp: "\<And>d. dmap (tf_path f) = Some d \<Longrightarrow>
                tolerates E I X (CompareRead f) \<and> tolerates E I X (CompareGet d)"
    and hc: "\<And>d. dmap (tf_path f) = Some d \<Longrightarrow> keeps I X (handleConflict E f d)"
  shows "keeps I X (vaultStep E toDrive ls dmap f c)"
proof (cases "toDrive")
  case False
  then show ?thesis by (simp add: vaultStep_def keeps_returnE)
next
  case True
  show ?thesis
  proof (cases "dmap (tf_path f)")
    case None
    have "keeps I X (bindE (ensureFolderPathExists E (folderOf (tf_path f)))
               (\<lambda>parentFolderId.
                  bindE (uploadFileToFolder E f parentFolderId None)
                    (\<lambda>_. returnE (c\<lparr>uploaded := uploaded c + 1\<rparr>))))"
      by (intro keeps_bindE ens uploadFileToFolder_keeps up keeps_returnE)
    then show ?thesis using True None by (simp add: vaultStep_def)
  next
    case (Some d)
    have upd: "keeps I X (bindE (ensureFolderPathExists E (folderOf (tf_path f)))
                     (\<lambda>updateParentId.
                        bindE (uploadFileToFolder E f updateParentId (Some (df_id d)))
                          (\<lambda>_. returnE (c\<lparr>uploaded := uploaded c + 1\<rparr>))))"
      by (intro keeps_bindE ens uploadFileToFolder_keeps up keeps_returnE)
    have hc': "keeps I X (bindE (handleConflict E f d)
                 (\<lambda>_. returnE (c\<lparr>conflicts := conflicts c + 1\<rparr>)))"
      by (intro keeps_bindE hc [OF Some] keeps_returnE)
    have cf: "keeps I X (\<lambda>s. case filesHaveIdenticalContent E f d s of
                           (identicalContent, s1) \<Rightarrow>
                             if identicalContent then (Inr c, s1)
                             else bindE (handleConflict E f d)
                                    (\<lambda>_. returnE (c\<lparr>conflicts := conflicts c + 1\<rparr>)) s1)"
      unfolding keeps_def
    proof (intro allI impI)
      fix s assume I: "I s"
      obtain b s1 where fh: "filesHaveIdenticalContent E f d s = (b, s1)"
        by (cases "filesHaveIdenticalContent E f d s")
      have "I s1"
        using filesHaveIdenticalContent_keeps [of E I X f d s] cmp [OF Some] I fh by simp
      then show "case (case filesHaveIdenticalContent E f d s of
                           (identicalContent, s1) \<Rightarrow>
                             if identicalContent then (Inr c, s1)
                             else bindE (handleConflict E f d)
                                    (\<lambda>_. returnE (c\<lparr>conflicts := conflicts c + 1\<rparr>)) s1)
                 of (Inl e, s') \<Rightarrow> X s' | (Inr x, s') \<Rightarrow> I s'"
        using hc' fh by (simp add: keeps_def)
    qed
    show ?thesis using True Some upd cf by (simp add: vaultStep_def Let_def keeps_returnE)
  qed
qed

lemma driveStep_keeps:
  assumes dl: "df_modifiedTime d > ls + 2000 \<Longrightarrow> keeps I X (downloadFile E d)"
    and del: "vmap (df_path d) = None \<Longrightarrow> \<not> df_modifiedTime d > ls + 2000 \<Longrightarrow> toDrive
               \<Longrightarrow> tolerates E I X (DeleteReq d)"
  shows "keeps I X (driveStep E toDrive fromDrive ls vmap tok d c)"
proof -
  have dl': "df_modifiedTime d > ls + 2000 \<Longrightarrow>
      keeps I X (bindE (downloadFile E d) (\<lambda>_. returnE (c\<lparr>downloaded := downloaded c + 1\<rparr>)))"
    by (intro keeps_bindE dl keeps_returnE)
  show ?thesis
  proof (cases "vmap (df_path d)")
    case None
    then show ?thesis using dl' deleteRemote_keeps [OF del]
      by (simp add: driveStep_def keeps_returnE)
  next
    case (Some v)
    then show ?thesis using dl'
      by (simp add: driveStep_def keeps_returnE Let_def)
  qed
qed

lemma syncTransfers_keeps:
  assumes sub: "\<And>s. I s \<Longrightarrow> X s"
    and lst: "tolerates E I X ListDrive" and tok: "tolerates E I X GetAccessToken"
    and vs: "\<And>s dfs f c. I s \<Longrightarrow> f \<in> set vf \<Longrightarrow>
               keeps I X (vaultStep E td (lastSyncTime (settings s)) (buildMap df_path dfs) f c)"
    and ds: "\<And>s dfs t d c. I s \<Longrightarrow> fd \<Longrightarrow> d \<in> set dfs \<Longrightarrow>
               keeps I X (driveStep E td fd (lastSyncTime (settings s)) (buildMap tf_path vf) t d c)"
    and start: "I (s0\<lparr>folderIdCache := Map.empty\<rparr>)"
  shows "case syncTransfers E td fd vf s0 of (Inl e, s') \<Rightarrow> X s' | (Inr x, s') \<Rightarrow> I s'"
proof -
  have inner: "keeps I X
       (\<lambda>s. (let vaultFileMap = buildMap tf_path vf;
               driveFileMap = buildMap df_path driveFiles;
               lastSync = lastSyncTime (settings s)
           in bindE (freshToken E UploadTokenFailed)
                (\<lambda>currentAccessToken.
                 bindE (forEachE (vaultStep E td lastSync driveFileMap) vf noCounts)
                (\<lambda>c1.
                 bindE (freshToken E DownloadTokenFailed)
                (\<lambda>downloadAccessToken.
                 if fd
                 then forEachE (driveStep E td fd lastSync vaultFileMap
                                  downloadAccessToken) driveFiles c1
                 else returnE c1))) s))" for driveFiles
    unfolding Let_def
  proof (rule keeps_reads_if [where g = "\<lambda>s. lastSyncTime (settings s)"])
    fix s assume I: "I s"
    have dtok: "keeps I X (bindE (freshToken E DownloadTokenFailed)
                (\<lambda>downloadAccessToken.
                 if fd
                 then forEachE (driveStep E td fd (lastSyncTime (settings s)) (buildMap tf_path vf)
                                  downloadAccessToken) driveFiles c1
                 else returnE c1))" for c1
      unfolding freshToken_def
      by (intro keeps_bindE keeps_if keeps_await [where E = E] keeps_throwE keeps_returnE
            keeps_forEachE ds [OF I] tok sub)
         (simp_all add: proceeds_def)
    show "keeps I X (bindE (freshToken E UploadTokenFailed)
                (\<lambda>currentAccessToken.
                 bindE (forEachE (vaultStep E td (lastSyncTime (settings s))
                          (buildMap df_path driveFiles)) vf noCounts)
                (\<lambda>c1.
                 bindE (freshToken E DownloadTokenFailed)
                (\<lambda>downloadAccessToken.
                 if fd
                 then forEachE (driveStep E td fd (lastSyncTime (settings s)) (buildMap tf_path vf)
                                  downloadAccessToken) driveFiles c1
                 else returnE c1))))"
      by (intro keeps_bindE freshToken_keeps [OF tok sub] keeps_forEachE vs [OF I] dtok)
  qed
  have all: "keeps I X (bindE (getDriveFilesRecursive E)
       (\<lambda>driveFiles s.
          (let vaultFileMap = buildMap tf_path vf;
               driveFileMap = buildMap df_path driveFiles;
               lastSync = lastSyncTime (settings s)
           in bindE (freshToken E UploadTokenFailed)
                (\<lambda>currentAccessToken.
                 bindE (forEachE (vaultStep E td lastSync driveFileMap) vf noCounts)
                (\<lambda>c1.
                 bindE (freshToken E DownloadTokenFailed)
                (\<lambda>downloadAccessToken.
                 if fd
                 then forEachE (driveStep E td fd lastSync vaultFileMap
                                  downloadAccessToken) driveFiles c1
                 else returnE c1))) s)))"
    unfolding getDriveFilesRecursive_def
    by (intro keeps_bindE keeps_fetch [where E = E] lst inner) (simp add: proceeds_def)
  from all [unfolded keeps_def, rule_format, OF start]
  show ?thesis unfolding syncTransfers_def .
qed

lemma performSync_cases:
  assumes "performSync E td fd vf now s = (r, s')"
  obtains (unconfigured) "r = NotConfigured" "s' = s"
    | (token) e where "r = SyncFailed e" "s' = logEvent GetAccessToken s"
    | (invalid) e where "r = ValidationFailed e"
        "s' = logEvent ValidateFolder (logEvent GetAccessToken s)"
    | (aborted) e where "r = SyncFailed e"
        "syncTransfers E td fd vf (logEvent ValidateFolder (logEvent GetAccessToken s)) = (Inl e, s')"
    | (unsaved) c s3 where "r = SyncFailed (Rejected SaveData)"
        "syncTransfers E td fd vf (logEvent ValidateFolder (logEvent GetAccessToken s)) = (Inr c, s3)"
        "s' = logEvent SaveData (s3\<lparr>settings := (settings s3)\<lparr>lastSyncTime := now\<rparr>\<rparr>)"
    | (synced) c s3 where "r = Synced c"
        "syncTransfers E td fd vf (logEvent ValidateFolder (logEvent GetAccessToken s)) = (Inr c, s3)"
        "s' = (logEvent SaveData (s3\<lparr>settings := (settings s3)\<lparr>lastSyncTime := now\<rparr>\<rparr>))
                \<lparr>saved := (settings s3)\<lparr>lastSyncTime := now\<rparr>\<rparr>"
proof (cases "refreshToken (settings s) = [] \<or> folderId (settings s) = []")
  case True
  then show ?thesis using assms unconfigured by (simp add: performSync_def)
next
  case conf: False
  obtain r1 s1 where ft: "freshToken E NoAccessToken s = (r1, s1)"
    by (cases "freshToken E NoAccessToken s")
  have s1: "s1 = logEvent GetAccessToken s"
    using ft by (auto simp: freshToken_def bindE_def await_def request_def logEvent_def
        throwE_def returnE_def split: option.splits if_splits)
  show ?thesis
  proof (cases r1)
    case (Inl e)
    then show ?thesis using assms conf ft s1 token [of e] by (auto simp: performSync_def)
  next
    case (Inr tok)
    obtain r2 s2 where vd: "validateDriveFolder E s1 = (r2, s2)"
      by (cases "validateDriveFolder E s1")
    have s2: "s2 = logEvent ValidateFolder s1"
      using vd by (auto simp: validateDriveFolder_def request_def logEvent_def
          split: response.splits if_splits)
    show ?thesis
    proof (cases r2)
      case (Inl e)
      then show ?thesis using assms conf ft Inr vd s1 s2 invalid [of e]
        by (auto simp: performSync_def)
    next
      case vok: (Inr u)
      obtain r3 s3 where st: "syncTransfers E td fd vf s2 = (r3, s3)"
        by (cases "syncTransfers E td fd vf s2")
      show ?thesis
      proof (cases r3)
        case (Inl e)
        then have "syncBody E td fd vf now s2 = (Inl e, s3)"
          using st by (simp add: syncBody_def bindE_def)
        then show ?thesis using assms conf ft \<open>r1 = Inr tok\<close> vd vok s1 s2 st Inl aborted [of e]
          by (auto simp: performSync_def)
      next
        case (Inr c)
        show ?thesis
        proof (cases "save_r E (length (trace s3))")
          case None
          then have "syncBody E td fd vf now s2 =
              (Inl (Rejected SaveData),
               logEvent SaveData (s3\<lparr>settings := (settings s3)\<lparr>lastSyncTime := now\<rparr>\<rparr>))"
            using st Inr
            by (simp add: syncBody_def bindE_def setLastSyncTime_def saveSettings_def
                await_def request_def logEvent_def)
          then show ?thesis
            using assms conf ft \<open>r1 = Inr tok\<close> vd vok s1 s2 st Inr unsaved [of c s3]
            by (auto simp: performSync_def)
        next
          case (Some u')
          then have "syncBody E td fd vf now s2 =
              (Inr c, (logEvent SaveData (s3\<lparr>settings := (settings s3)\<lparr>lastSyncTime := now\<rparr>\<rparr>))
                \<lparr>saved := (settings s3)\<lparr>lastSyncTime := now\<rparr>\<rparr>)"
            using st Inr
            by (simp add: syncBody_def bindE_def setLastSyncTime_def saveSettings_def
                await_def request_def logEvent_def returnE_def)
          then show ?thesis
            using assms conf ft \<open>r1 = Inr tok\<close> vd vok s1 s2 st Inr synced [of c s3]
            by (auto simp: performSync_def)
        qed
      qed
    qed
  qed
qed

section \<open>Runs that make only some calls\<close>

lemma buildMap_snoc: "buildMap key (xs @ [x]) = (buildMap key xs)(key x \<mapsto> x)"
  by (simp add: buildMap_def)

lemma buildMap_Some: "buildMap key xs k = Some x \<Longrightarrow> key x = k \<and> x \<in> set xs"
proof (induction xs rule: rev_induct)
  case Nil
  then show ?case by (simp add: buildMap_def)
next
  case (snoc y ys)
  then show ?case by (auto simp: buildMap_snoc split: if_splits)
qed

lemma buildMap_member: "x \<in> set xs \<Longrightarrow> buildMap key xs (key x) \<noteq> None"
proof (induction xs rule: rev_induct)
  case Nil
  then show ?case by simp
next
  case (snoc y ys)
  then show ?case by (auto simp: buildMap_snoc)
qed

lemma onlyLogged_logEvent: "onlyLogged t0 P s \<Longrightarrow> P e \<Longrightarrow> onlyLogged t0 P (logEvent e s)"
  by (auto simp: onlyLogged_def logEvent_def)

lemma guarded_tolerates: "P e \<Longrightarrow> tolerates E (guarded K t0 P) (guarded K t0 P) e"
  by (auto simp: tolerates_def guarded_def onlyLogged_logEvent) (simp_all add: logEvent_def)

lemma guarded_cacheFree: "cacheFree (guarded K t0 P)"
  by (simp add: cacheFree_def guarded_def onlyLogged_def)

lemma guarded_syncTransfers:
  assumes other: "\<And>e. \<not> isDownloadGet e \<Longrightarrow> \<not> isDeleteReq e \<Longrightarrow> P e"
    and conflict: "\<And>x dfs f d. K x \<Longrightarrow> td \<Longrightarrow> conflictResolution x = KeepRemote \<Longrightarrow> f \<in> set vf
        \<Longrightarrow> buildMap df_path dfs (tf_path f) = Some d \<Longrightarrow> P (DownloadGet d)"
    and download: "\<And>x d. K x \<Longrightarrow> fd \<Longrightarrow> df_modifiedTime d > lastSyncTime x + 2000
        \<Longrightarrow> P (DownloadGet d)"
    and delete: "\<And>x d. K x \<Longrightarrow> fd \<Longrightarrow> td \<Longrightarrow> buildMap tf_path vf (df_path d) = None
        \<Longrightarrow> \<not> df_modifiedTime d > lastSyncTime x + 2000 \<Longrightarrow> P (DeleteReq d)"
    and start: "guarded K t0 P s"
    and run: "syncTransfers E td fd vf s = (r, s')"
  shows "guarded K t0 P s'"
proof -
  let ?I = "guarded K t0 P"
  have tol: "\<And>e. \<not> isDownloadGet e \<Longrightarrow> \<not> isDeleteReq e \<Longrightarrow> tolerates E ?I ?I e"
    by (rule guarded_tolerates) (rule other)
  have ens: "\<And>p. keeps ?I ?I (ensureFolderPathExists E p)"
    by (rule ensureFolderPathExists_keeps [OF tol guarded_cacheFree])
       (auto simp: isFolderEvent_def isDownloadGet_def isDeleteReq_def split: event.splits)
  have up: "\<And>f e. isUploadOf f e \<Longrightarrow> tolerates E ?I ?I e"
    by (rule tol) (auto simp: isUploadOf_def isDownloadGet_def isDeleteReq_def split: event.splits)
  have wr: "\<And>p. tolerates E ?I ?I (VaultWrite p)"
    by (rule tol) (simp_all add: isDownloadGet_def isDeleteReq_def)
  have dlf: "P (DownloadGet d) \<Longrightarrow> keeps ?I ?I (downloadFile E d)" for d
    by (rule downloadFile_keeps)
       (auto simp: isDownloadOf_def wr guarded_tolerates split: event.splits)
  have vs: "keeps ?I ?I (vaultStep E td ls (buildMap df_path dfs) f c)"
    if f: "f \<in> set vf" for ls dfs f c
  proof (cases td)
    case False
    then show ?thesis by (simp add: vaultStep_def keeps_returnE)
  next
    case True
    have hc: "keeps ?I ?I (handleConflict E f d)"
      if d: "buildMap df_path dfs (tf_path f) = Some d" for d
    proof (rule handleConflict_keeps [OF _ _ ens up])
      fix s0 assume "guarded K t0 P s0" "conflictResolution (settings s0) = KeepRemote"
      then have "P (DownloadGet d)"
        using conflict [of "settings s0" f dfs d] True f d by (simp add: guarded_def)
      then show "keeps ?I ?I (downloadFile E d)" by (rule dlf)
    qed (auto intro!: tol simp: isDownloadGet_def isDeleteReq_def)
    show ?thesis
      by (rule vaultStep_keeps [OF ens up _ hc])
         (auto intro!: tol simp: isDownloadGet_def isDeleteReq_def)
  qed
  have ds: "keeps ?I ?I (driveStep E td fd (lastSyncTime (settings s0)) (buildMap tf_path vf) t d c)"
    if "?I s0" "fd" for s0 t d c
  proof (rule driveStep_keeps)
    assume "lastSyncTime (settings s0) + 2000 < df_modifiedTime d"
    then have "P (DownloadGet d)"
      using download [of "settings s0" d] that by (simp add: guarded_def)
    then show "keeps ?I ?I (downloadFile E d)" by (rule dlf)
  next
    assume "buildMap tf_path vf (df_path d) = None"
      "\<not> lastSyncTime (settings s0) + 2000 < df_modifiedTime d" "td"
    then have "P (DeleteReq d)"
      using delete [of "settings s0" d] that by (simp add: guarded_def)
    then show "tolerates E ?I ?I (DeleteReq d)" by (rule guarded_tolerates)
  qed
  have "?I (s\<lparr>folderIdCache := Map.empty\<rparr>)"
    using start guarded_cacheFree [of K t0 P] by (simp add: cacheFree_def)
  then have "case syncTransfers E td fd vf s of (Inl e, s') \<Rightarrow> ?I s' | (Inr x, s') \<Rightarrow> ?I s'"
    by (intro syncTransfers_keeps vs ds)
       (auto intro!: tol simp: isDownloadGet_def isDeleteReq_def)
  then show ?thesis using run by (auto split: sum.splits)
qed

lemma guarded_performSync:
  assumes other: "\<And>e. \<not> isDownloadGet e \<Longrightarrow> \<not> isDeleteReq e \<Longrightarrow> P e"
    and conflict: "\<And>x dfs f d. K x \<Longrightarrow> td \<Longrightarrow> conflictResolution x = KeepRemote \<Longrightarrow> f \<in> set vf
        \<Longrightarrow> buildMap df_path dfs (tf_path f) = Some d \<Longrightarrow> P (DownloadGet d)"
    and download: "\<And>x d. K x \<Longrightarrow> fd \<Longrightarrow> df_modifiedTime d > lastSyncTime x + 2000
        \<Longrightarrow> P (DownloadGet d)"
    and delete: "\<And>x d. K x \<Longrightarrow> fd \<Longrightarrow> td \<Longrightarrow> buildMap tf_path vf (df_path d) = None
        \<Longrightarrow> \<not> df_modifiedTime d > lastSyncTime x + 2000 \<Longrightarrow> P (DeleteReq d)"
    and start: "K (settings s)"
    and run: "performSync E td fd vf now s = (r, s')"
  shows "\<exists>evs. trace s' = trace s @ evs \<and> list_all P evs"
proof -
  let ?s2 = "logEvent ValidateFolder (logEvent GetAccessToken s)"
  have pre: "P GetAccessToken" "P ValidateFolder" "P SaveData"
    by (rule other; simp add: isDownloadGet_def isDeleteReq_def)+
  have s2: "guarded K (trace s) P ?s2"
    using start pre by (simp add: guarded_def onlyLogged_def logEvent_def)
  have st: "guarded K (trace s) P s''" if "syncTransfers E td fd vf ?s2 = (r', s'')" for r' s''
  proof (rule guarded_syncTransfers [where K = K and P = P and td = td and fd = fd and vf = vf])
    show "guarded K (trace s) P ?s2" by (rule s2)
    show "syncTransfers E td fd vf ?s2 = (r', s'')" by (rule that)
  qed (use other conflict download delete in blast)+
  from run show ?thesis
  proof (cases rule: performSync_cases)
    case unconfigured
    then show ?thesis by simp
  next
    case (token e)
    then show ?thesis using pre by (simp add: logEvent_def)
  next
    case (invalid e)
    then show ?thesis using pre by (simp add: logEvent_def)
  next
    case (aborted e)
    from st [OF aborted(2)] show ?thesis by (simp add: guarded_def onlyLogged_def)
  next
    case (unsaved c s3)
    from st [OF unsaved(2)] show ?thesis
      unfolding unsaved(3) using pre by (auto simp: guarded_def onlyLogged_def logEvent_def)
  next
    case (synced c s3)
    from st [OF synced(2)] show ?thesis
      unfolding synced(3) using pre by (auto simp: guarded_def onlyLogged_def logEvent_def)
  qed
qed

section \<open>Runs whose calls all succeed\<close>

lemma syncTransfers_keeps_all:
  assumes tol: "\<And>e. tolerates E I X e" and sub: "\<And>s. I s \<Longrightarrow> X s" and cf: "cacheFree I"
    and start: "I s"
  shows "case syncTransfers E td fd vf s of (Inl e, s') \<Rightarrow> X s' | (Inr x, s') \<Rightarrow> I s'"
proof -
  have ens: "\<And>p. keeps I X (ensureFolderPathExists E p)"
    by (rule ensureFolderPathExists_keeps [OF tol cf])
  have dl: "\<And>d. keeps I X (downloadFile E d)"
    by (rule downloadFile_keeps [OF tol])
  have hc: "\<And>f d. keeps I X (handleConflict E f d)"
    by (rule handleConflict_keeps [OF tol sub ens tol dl tol])
  have vs: "\<And>ls dm f c. keeps I X (vaultStep E td ls dm f c)"
    by (rule vaultStep_keeps [OF ens tol _ hc]) (simp add: tol)
  have ds: "\<And>ls vm t d c. keeps I X (driveStep E td fd ls vm t d c)"
    by (rule driveStep_keeps [OF dl tol])
  have "I (s\<lparr>folderIdCache := Map.empty\<rparr>)"
    using start cf by (simp add: cacheFree_def)
  then show ?thesis
    by (intro syncTransfers_keeps vs ds tol sub)
qed

lemma transferring_tolerates:
  "tolerates E (transferring cfg sv E t0) (stopped cfg sv E t0) e"
  unfolding tolerates_def
proof (intro allI impI)
  fix s assume I: "transferring cfg sv E t0 s"
  then obtain evs where evs: "trace s = t0 @ evs"
    and ok: "\<forall>i<length evs. proceeds E (length t0 + i) (evs ! i)"
    and fr: "settings s = cfg" "saved s = sv"
    by (auto simp: transferring_def)
  have tr: "trace (logEvent e s) = t0 @ (evs @ [e])" using evs by (simp add: logEvent_def)
  have fr': "settings (logEvent e s) = cfg" "saved (logEvent e s) = sv"
    using fr by (simp_all add: logEvent_def)
  show "if proceeds E (length (trace s)) e then transferring cfg sv E t0 (logEvent e s)
        else stopped cfg sv E t0 (logEvent e s)"
  proof (cases "proceeds E (length (trace s)) e")
    case True
    have "\<forall>i<length (evs @ [e]). proceeds E (length t0 + i) ((evs @ [e]) ! i)"
      using ok True evs by (auto simp: nth_append less_Suc_eq)
    then show ?thesis using True tr fr' unfolding transferring_def by auto
  next
    case False
    have "\<forall>i. Suc i < length (evs @ [e]) \<longrightarrow> proceeds E (length t0 + i) ((evs @ [e]) ! i)"
      using ok by (auto simp: nth_append)
    then show ?thesis using False tr fr' unfolding stopped_def by auto
  qed
qed

lemma transferring_stopped: "transferring cfg sv E t0 s \<Longrightarrow> stopped cfg sv E t0 s"
  by (auto simp: transferring_def stopped_def)

lemma transferring_cacheFree: "cacheFree (transferring cfg sv E t0)"
  by (simp add: cacheFree_def transferring_def)

lemma transferring_syncTransfers:
  assumes "syncTransfers E td fd vf s = (r, s')"
  shows "case r of Inl e \<Rightarrow> stopped (settings s) (saved s) E (trace s) s'
                 | Inr c \<Rightarrow> transferring (settings s) (saved s) E (trace s) s'"
proof -
  have "transferring (settings s) (saved s) E (trace s) s"
    by (simp add: transferring_def)
  from syncTransfers_keeps_all [of E "transferring (settings s) (saved s) E (trace s)"
      "stopped (settings s) (saved s) E (trace s)", OF transferring_tolerates
      transferring_stopped transferring_cacheFree this, of td fd vf]
  show ?thesis using assms by (auto split: sum.splits)
qed

section \<open>Paths and their segments\<close>

lemma split_on_not_Nil: "split_on c s \<noteq> []"
  by (induction s) (auto split: list.splits)

lemma split_on_free: "x \<in> set (split_on c s) \<Longrightarrow> c \<notin> set x"
proof (induction s arbitrary: x)
  case Nil
  then show ?case by simp
next
  case (Cons a s)
  then show ?case
    by (cases "split_on c s") (auto split: if_splits)
qed

lemma split_on_single: "c \<notin> set a \<Longrightarrow> split_on c a = [a]"
  by (induction a) auto

lemma split_on_append: "split_on c (a @ c # b) = split_on c a @ split_on c b"
proof (induction a)
  case Nil
  show ?case by simp
next
  case (Cons x a)
  show ?case
  proof (cases "x = c")
    case True
    then show ?thesis using Cons by simp
  next
    case False
    obtain y ys where "split_on c a = y # ys"
      using split_on_not_Nil [of c a] by (cases "split_on c a") auto
    then show ?thesis using False Cons by simp
  qed
qed

lemma segmentsOf_Nil: "segmentsOf [] = []"
  by (simp add: segmentsOf_def)

lemma segmentsOf_free: "x \<in> set (segmentsOf p) \<Longrightarrow> x \<noteq> [] \<and> CHR ''/'' \<notin> set x"
  by (auto simp: segmentsOf_def dest: split_on_free)

lemma segmentsOf_joinPath:
  assumes "seg \<noteq> []" and "CHR ''/'' \<notin> set seg"
  shows "segmentsOf (joinPath cur seg) = segmentsOf cur @ [seg]"
proof (cases "cur = []")
  case True
  then show ?thesis using assms
    by (simp add: joinPath_def segmentsOf_def split_on_single)
next
  case False
  have "joinPath cur seg = cur @ CHR ''/'' # seg" using False by (simp add: joinPath_def)
  then show ?thesis using assms
    by (simp add: segmentsOf_def split_on_append split_on_single)
qed

lemma joinPath_not_Nil: "seg \<noteq> [] \<Longrightarrow> joinPath cur seg \<noteq> []"
  by (simp add: joinPath_def)

lemma length_cumPaths: "length (cumPaths cur segs) = length segs"
  by (induction segs arbitrary: cur) auto

lemma cumPaths_not_Nil: "\<forall>x\<in>set segs. x \<noteq> [] \<Longrightarrow> [] \<notin> set (cumPaths cur segs)"
proof (induction segs arbitrary: cur)
  case Nil
  show ?case by simp
next
  case (Cons seg rest)
  have "joinPath cur seg \<noteq> []" using Cons.prems by (simp add: joinPath_not_Nil)
  moreover have "[] \<notin> set (cumPaths (joinPath cur seg) rest)"
    using Cons.IH Cons.prems by simp
  ultimately show ?case by auto
qed

lemma cumPaths_eq_Nil: "(cumPaths cur segs = []) = (segs = [])"
  by (cases segs) auto

lemma last_cumPaths_Cons:
  "rest \<noteq> [] \<Longrightarrow> last (cumPaths cur (seg # rest)) = last (cumPaths (joinPath cur seg) rest)"
  by (cases rest) auto

lemma segmentsOf_cumPaths:
  assumes "\<forall>x\<in>set segs. x \<noteq> [] \<and> CHR ''/'' \<notin> set x" and "i < length segs"
  shows "segmentsOf (cumPaths cur segs ! i) = segmentsOf cur @ take (Suc i) segs"
  using assms
proof (induction segs arbitrary: cur i)
  case Nil
  then show ?case by simp
next
  case (Cons seg rest)
  show ?case
  proof (cases i)
    case 0
    then show ?thesis using Cons.prems by (simp add: segmentsOf_joinPath)
  next
    case (Suc j)
    then have "segmentsOf (cumPaths (joinPath cur seg) rest ! j)
        = segmentsOf (joinPath cur seg) @ take (Suc j) rest"
      using Cons.IH [of j "joinPath cur seg"] Cons.prems by simp
    then show ?thesis using Suc Cons.prems by (simp add: segmentsOf_joinPath)
  qed
qed

lemma own_cumPath_is_last:
  assumes "p \<in> set (cumPaths [] (segmentsOf p))"
  shows "p = last (cumPaths [] (segmentsOf p))"
proof -
  let ?segs = "segmentsOf p"
  obtain i where i: "i < length ?segs" "cumPaths [] ?segs ! i = p"
    using assms by (auto simp: in_set_conv_nth length_cumPaths)
  have free: "\<forall>x\<in>set ?segs. x \<noteq> [] \<and> CHR ''/'' \<notin> set x"
    using segmentsOf_free by blast
  have "segmentsOf (cumPaths [] ?segs ! i) = take (Suc i) ?segs"
    using segmentsOf_cumPaths [OF free i(1), of "[]"] by (simp add: segmentsOf_Nil)
  then have "take (Suc i) ?segs = ?segs" using i(2) by simp
  then have "length (take (Suc i) ?segs) = length ?segs" by simp
  then have "length ?segs \<le> Suc i" by simp
  then have "i = length ?segs - 1" using i(1) by simp
  moreover have "cumPaths [] ?segs \<noteq> []"
    using i(1) length_cumPaths [of "[]" ?segs] by auto
  ultimately show ?thesis using i(2) by (simp add: last_conv_nth length_cumPaths)
qed

section \<open>What folder materialization does to the cache\<close>

lemma ensureSegments_uncached:
  assumes none: "folderIdCache s (joinPath cur seg) = None"
    and run: "ensureSegments E (seg # rest) par cur s = (r, s1)"
  shows
   "(find_r E (length (trace s)) = Thrown \<and> r = Inl (Rejected (FindFolder seg par)) \<and>
       s1 = logEvent (FindFolder seg par) s)
  \<or> (\<exists>i. i \<noteq> [] \<and> (\<exists>ids. find_r E (length (trace s)) = Ok (i # ids)) \<and>
         ensureSegments E rest i (joinPath cur seg)
           ((logEvent (FindFolder seg par) s)
              \<lparr>folderIdCache := (folderIdCache s)(joinPath cur seg \<mapsto> i)\<rparr>) = (r, s1))
  \<or> (find_r E (length (trace s)) \<noteq> Thrown \<and> \<not> isOk (create_r E (Suc (length (trace s)))) \<and>
       (\<exists>e. r = Inl e) \<and>
       s1 = logEvent (CreateFolder (joinPath cur seg) seg par) (logEvent (FindFolder seg par) s))
  \<or> (\<exists>i. find_r E (length (trace s)) \<noteq> Thrown \<and> create_r E (Suc (length (trace s))) = Ok i \<and>
         ensureSegments E rest i (joinPath cur seg)
           ((logEvent (CreateFolder (joinPath cur seg) seg par) (logEvent (FindFolder seg par) s))
              \<lparr>folderIdCache := (folderIdCache s)(joinPath cur seg \<mapsto> i)\<rparr>) = (r, s1))"
proof -
  let ?cp = "joinPath cur seg"
  let ?s' = "logEvent (FindFolder seg par) s"
  have fd: "findDriveFolder E seg par s =
      (case find_r E (length (trace s)) of
         Thrown \<Rightarrow> (Inl (Rejected (FindFolder seg par)), ?s')
       | NotOk c \<Rightarrow> (Inr None, ?s')
       | Ok files \<Rightarrow> (Inr (case files of [] \<Rightarrow> None | i # _ \<Rightarrow> Some i), ?s'))"
    by (simp add: findDriveFolder_def request_def logEvent_def split: response.splits)
  have cr: "createDriveFolder E ?cp seg par ?s' =
      (case create_r E (Suc (length (trace s))) of
         Thrown \<Rightarrow> (Inl (Rejected (CreateFolder ?cp seg par)), logEvent (CreateFolder ?cp seg par) ?s')
       | NotOk c \<Rightarrow> (Inl (CreateFolderFailed c), logEvent (CreateFolder ?cp seg par) ?s')
       | Ok i \<Rightarrow> (Inr i, logEvent (CreateFolder ?cp seg par) ?s'))"
    by (simp add: createDriveFolder_def fetch_def request_def logEvent_def split: response.splits)
  have cs: "cacheSet ?cp i t = (Inr (), t\<lparr>folderIdCache := (folderIdCache t)(?cp \<mapsto> i)\<rparr>)" for i t
    by (simp add: cacheSet_def)
  have c1: "folderIdCache ?s' = folderIdCache s"
    "folderIdCache (logEvent (CreateFolder ?cp seg par) ?s') = folderIdCache s"
    by (simp_all add: logEvent_def)
  show ?thesis
  proof (cases "find_r E (length (trace s))")
    case Thrown
    then show ?thesis using none run fd by (simp add: Let_def bindE_def)
  next
    case (NotOk c)
    then show ?thesis using none run fd cr cs c1
      by (cases "create_r E (Suc (length (trace s)))")
         (auto simp: Let_def bindE_def isOk_def)
  next
    case (Ok files)
    show ?thesis
    proof (cases "\<exists>i ids. files = i # ids \<and> i \<noteq> []")
      case True
      then obtain i ids where "files = i # ids" "i \<noteq> []" by blast
      then show ?thesis using Ok none run fd cs c1
        by (auto simp: Let_def bindE_def)
    next
      case False
      then have "(case files of [] \<Rightarrow> None | i # _ \<Rightarrow> Some i) = None
          \<or> (case files of [] \<Rightarrow> None | i # _ \<Rightarrow> Some i) = Some []"
        by (cases files) auto
      then show ?thesis using Ok none run fd cr cs c1
        by (cases "create_r E (Suc (length (trace s)))")
           (auto simp: Let_def bindE_def isOk_def)
    qed
  qed
qed

lemma ensureSegments_cached:
  assumes "folderIdCache s (joinPath cur seg) = Some j"
  shows "ensureSegments E (seg # rest) par cur s = ensureSegments E rest j (joinPath cur seg) s"
  using assms by (simp add: Let_def)

lemma ensureSegments_effect:
  assumes "ensureSegments E segs par cur s = (r, s1)"
  shows "folderIdCache s \<subseteq>\<^sub>m folderIdCache s1 \<and>
         dom (folderIdCache s1) \<subseteq> dom (folderIdCache s) \<union> set (cumPaths cur segs) \<and>
         settings s1 = settings s \<and>
         (\<forall>i. r = Inr i \<longrightarrow>
            set (cumPaths cur segs) \<subseteq> dom (folderIdCache s1) \<and>
            (if segs = [] then i = par \<and> s1 = s
             else folderIdCache s1 (last (cumPaths cur segs)) = Some i))"
  using assms
proof (induction segs arbitrary: par cur s)
  case Nil
  then show ?case by (auto simp: returnE_def)
next
  case (Cons seg rest)
  let ?cp = "joinPath cur seg"
  have step: "folderIdCache s \<subseteq>\<^sub>m folderIdCache s1 \<and>
         dom (folderIdCache s1) \<subseteq> dom (folderIdCache s) \<union> set (cumPaths cur (seg # rest)) \<and>
         settings s1 = settings s \<and>
         (\<forall>i. r = Inr i \<longrightarrow>
            set (cumPaths cur (seg # rest)) \<subseteq> dom (folderIdCache s1) \<and>
            folderIdCache s1 (last (cumPaths cur (seg # rest))) = Some i)"
    if rec: "ensureSegments E rest j ?cp t = (r, s1)"
      and t: "folderIdCache s \<subseteq>\<^sub>m folderIdCache t" "folderIdCache t ?cp = Some j"
        "dom (folderIdCache t) \<subseteq> insert ?cp (dom (folderIdCache s))"
        "settings t = settings s"
    for j t
  proof -
    note IH = Cons.IH [OF rec]
    have mono: "folderIdCache s \<subseteq>\<^sub>m folderIdCache s1"
      using IH t(1) by (blast intro: map_le_trans)
    have cp: "folderIdCache s1 ?cp = Some j"
      using IH t(2) by (auto simp: map_le_def dom_def)
    have "dom (folderIdCache s1) \<subseteq> dom (folderIdCache t) \<union> set (cumPaths ?cp rest)"
      using IH by simp
    then have dm: "dom (folderIdCache s1)
        \<subseteq> dom (folderIdCache s) \<union> set (cumPaths cur (seg # rest))"
      using t(3) by (simp only: cumPaths.simps list.set) blast
    have "set (cumPaths cur (seg # rest)) \<subseteq> dom (folderIdCache s1) \<and>
            folderIdCache s1 (last (cumPaths cur (seg # rest))) = Some i" if "r = Inr i" for i
    proof (cases "rest = []")
      case True
      then show ?thesis using IH cp that by auto
    next
      case False
      then show ?thesis using IH cp that by (auto simp: last_cumPaths_Cons cumPaths_eq_Nil)
    qed
    then show ?thesis using mono dm IH t(4) by simp
  qed
  show ?case
  proof (cases "folderIdCache s ?cp")
    case (Some j)
    have "ensureSegments E rest j ?cp s = (r, s1)"
      using Cons.prems ensureSegments_cached [OF Some] by simp
    then have "folderIdCache s \<subseteq>\<^sub>m folderIdCache s1 \<and>
         dom (folderIdCache s1) \<subseteq> dom (folderIdCache s) \<union> set (cumPaths cur (seg # rest)) \<and>
         settings s1 = settings s \<and>
         (\<forall>i. r = Inr i \<longrightarrow>
            set (cumPaths cur (seg # rest)) \<subseteq> dom (folderIdCache s1) \<and>
            folderIdCache s1 (last (cumPaths cur (seg # rest))) = Some i)"
      by (rule step) (use Some in auto)
    then show ?thesis by simp
  next
    case None
    from ensureSegments_uncached [OF None Cons.prems]
    show ?thesis
    proof (elim disjE exE conjE)
      assume "r = Inl (Rejected (FindFolder seg par))" "s1 = logEvent (FindFolder seg par) s"
      then show ?thesis by (auto simp: logEvent_def)
    next
      fix i
      assume "ensureSegments E rest i ?cp
           ((logEvent (FindFolder seg par) s)\<lparr>folderIdCache := (folderIdCache s)(?cp \<mapsto> i)\<rparr>)
           = (r, s1)"
      then have "folderIdCache s \<subseteq>\<^sub>m folderIdCache s1 \<and>
         dom (folderIdCache s1) \<subseteq> dom (folderIdCache s) \<union> set (cumPaths cur (seg # rest)) \<and>
         settings s1 = settings s \<and>
         (\<forall>i. r = Inr i \<longrightarrow>
            set (cumPaths cur (seg # rest)) \<subseteq> dom (folderIdCache s1) \<and>
            folderIdCache s1 (last (cumPaths cur (seg # rest))) = Some i)"
        by (rule step) (use None in \<open>auto simp: logEvent_def map_le_def\<close>)
      then show ?thesis by simp
    next
      fix e
      assume "r = Inl e"
        "s1 = logEvent (CreateFolder ?cp seg par) (logEvent (FindFolder seg par) s)"
      then show ?thesis by (auto simp: logEvent_def)
    next
      fix i
      assume "ensureSegments E rest i ?cp
           ((logEvent (CreateFolder ?cp seg par) (logEvent (FindFolder seg par) s))
              \<lparr>folderIdCache := (folderIdCache s)(?cp \<mapsto> i)\<rparr>) = (r, s1)"
      then have "folderIdCache s \<subseteq>\<^sub>m folderIdCache s1 \<and>
         dom (folderIdCache s1) \<subseteq> dom (folderIdCache s) \<union> set (cumPaths cur (seg # rest)) \<and>
         settings s1 = settings s \<and>
         (\<forall>i. r = Inr i \<longrightarrow>
            set (cumPaths cur (seg # rest)) \<subseteq> dom (folderIdCache s1) \<and>
            folderIdCache s1 (last (cumPaths cur (seg # rest))) = Some i)"
        by (rule step) (use None in \<open>auto simp: logEvent_def map_le_def\<close>)
      then show ?thesis by simp
    qed
  qed
qed

lemma ensureSegments_all_cached:
  assumes "set (cumPaths cur segs) \<subseteq> dom (folderIdCache s)"
  shows "ensureSegments E segs par cur s =
     (Inr (if segs = [] then par else the (folderIdCache s (last (cumPaths cur segs)))), s)"
  using assms
proof (induction segs arbitrary: par cur)
  case Nil
  show ?case by (simp add: returnE_def)
next
  case (Cons seg rest)
  let ?cp = "joinPath cur seg"
  obtain j where j: "folderIdCache s ?cp = Some j" using Cons.prems by auto
  have "ensureSegments E (seg # rest) par cur s = ensureSegments E rest j ?cp s"
    by (rule ensureSegments_cached [OF j])
  also have "\<dots> = (Inr (if rest = [] then j
                          else the (folderIdCache s (last (cumPaths ?cp rest)))), s)"
    using Cons.IH [of ?cp j] Cons.prems by simp
  finally show ?case using j by (cases rest) auto
qed

lemma ensureFolderPathExists_again:
  assumes first: "ensureFolderPathExists E p s = (Inr i, s1)"
  shows "ensureFolderPathExists E' p s1 = (Inr i, s1)"
proof (cases "folderIdCache s p")
  case (Some j)
  then show ?thesis using first by (auto simp: ensureFolderPathExists_def)
next
  case None
  show ?thesis
  proof (cases "p = [] \<or> p = ''.''")
    case True
    then show ?thesis using first None by (auto simp: ensureFolderPathExists_def)
  next
    case False
    let ?segs = "segmentsOf p"
    have loop: "ensureSegments E ?segs (folderId (settings s)) [] s = (Inr i, s1)"
      using first None False by (simp add: ensureFolderPathExists_def)
    note eff = ensureSegments_effect [OF loop]
    have all: "set (cumPaths [] ?segs) \<subseteq> dom (folderIdCache s1)" using eff by simp
    have res: "(if ?segs = [] then folderId (settings s1)
                else the (folderIdCache s1 (last (cumPaths [] ?segs)))) = i"
      using eff by (auto split: if_splits)
    show ?thesis
    proof (cases "folderIdCache s1 p")
      case None
      then show ?thesis using False ensureSegments_all_cached [OF all] res
        by (simp add: ensureFolderPathExists_def)
    next
      case (Some j)
      then have "p \<in> set (cumPaths [] ?segs)" using eff \<open>folderIdCache s p = None\<close> by auto
      then have last: "p = last (cumPaths [] ?segs)" by (rule own_cumPath_is_last)
      have "?segs \<noteq> []" using \<open>p \<in> set (cumPaths [] ?segs)\<close> by auto
      then have "folderIdCache s1 p = Some i" using eff last by auto
      then show ?thesis by (simp add: ensureFolderPathExists_def)
    qed
  qed
qed

lemma ensureFolderPathExists_cache:
  assumes "ensureFolderPathExists E p s = (r, s1)"
  shows "folderIdCache s \<subseteq>\<^sub>m folderIdCache s1 \<and>
         (folderIdCache s [] = None \<longrightarrow> folderIdCache s1 [] = None)"
proof (cases "folderIdCache s p = None \<and> \<not> (p = [] \<or> p = ''.'')")
  case False
  then have "s1 = s" using assms by (auto simp: ensureFolderPathExists_def split: option.splits)
  then show ?thesis by simp
next
  case True
  then have loop: "ensureSegments E (segmentsOf p) (folderId (settings s)) [] s = (r, s1)"
    using assms by (simp add: ensureFolderPathExists_def)
  note eff = ensureSegments_effect [OF loop]
  have "[] \<notin> set (cumPaths [] (segmentsOf p))"
    by (rule cumPaths_not_Nil) (use segmentsOf_free in blast)
  then show ?thesis using eff by (auto simp: dom_def)
qed

lemma last_cumPaths: "segs \<noteq> [] \<Longrightarrow> last (cumPaths cur segs) = foldl joinPath cur segs"
proof (induction segs arbitrary: cur)
  case Nil
  then show ?case by simp
next
  case (Cons seg rest)
  then show ?case by (cases "rest = []") (simp_all add: cumPaths_eq_Nil)
qed

lemma ensureFolderPathExists_later:
  assumes first: "ensureFolderPathExists E p s = (Inr i, s1)"
    and own: "p = foldl joinPath [] (segmentsOf p)" and ne: "p \<noteq> []" "p \<noteq> ''.''"
    and later: "folderIdCache s1 \<subseteq>\<^sub>m folderIdCache s2"
  shows "ensureFolderPathExists E' p s2 = (Inr i, s2)"
proof -
  have "folderIdCache s1 p = Some i"
  proof (cases "folderIdCache s p")
    case (Some j)
    then show ?thesis using first by (auto simp: ensureFolderPathExists_def)
  next
    case None
    then have loop: "ensureSegments E (segmentsOf p) (folderId (settings s)) [] s = (Inr i, s1)"
      using first ne by (simp add: ensureFolderPathExists_def)
    have segs: "segmentsOf p \<noteq> []" using own ne by auto
    then have "last (cumPaths [] (segmentsOf p)) = p"
      using own last_cumPaths [of "segmentsOf p" "[]"] by simp
    then show ?thesis using ensureSegments_effect [OF loop] segs by auto
  qed
  then have "folderIdCache s2 p = Some i" using later by (auto simp: map_le_def dom_def)
  then show ?thesis by (simp add: ensureFolderPathExists_def)
qed

section \<open>At most one creation request per path\<close>

lemma createdPaths_append: "createdPaths (xs @ ys) = createdPaths xs @ createdPaths ys"
  by (induction xs) (auto split: event.splits)

lemma creatingOnce_createdOnce: "creatingOnce t0 s \<Longrightarrow> createdOnce t0 s"
  by (auto simp: creatingOnce_def createdOnce_def)

lemma creatingOnce_logEvent:
  "creatingOnce t0 s \<Longrightarrow> \<not> isCreateFolder e \<Longrightarrow> creatingOnce t0 (logEvent e s)"
  by (auto simp: creatingOnce_def logEvent_def createdPaths_append isCreateFolder_def
      split: event.splits)

lemma creatingOnce_tolerates:
  "\<not> isCreateFolder e \<Longrightarrow> tolerates E (creatingOnce t0) (createdOnce t0) e"
  by (simp add: tolerates_def creatingOnce_logEvent creatingOnce_createdOnce)

lemma creatingOnce_cached:
  "creatingOnce t0 s \<Longrightarrow> trace t = trace s \<Longrightarrow>
   folderIdCache t = (folderIdCache s)(k \<mapsto> v) \<Longrightarrow> creatingOnce t0 t"
  by (auto simp: creatingOnce_def)

lemma creatingOnce_create:
  assumes "creatingOnce t0 s" and "folderIdCache s cp = None"
  shows "createdOnce t0 (logEvent (CreateFolder cp n p) s)"
    and "trace t = trace (logEvent (CreateFolder cp n p) s) \<Longrightarrow>
         folderIdCache t = (folderIdCache s)(cp \<mapsto> v) \<Longrightarrow> creatingOnce t0 t"
proof -
  obtain evs where evs: "trace s = t0 @ evs" "distinct (createdPaths evs)"
    "set (createdPaths evs) \<subseteq> dom (folderIdCache s)"
    using assms(1) by (auto simp: creatingOnce_def)
  have new: "cp \<notin> set (createdPaths evs)" using evs(3) assms(2) by auto
  have tr: "trace (logEvent (CreateFolder cp n p) s) = t0 @ (evs @ [CreateFolder cp n p])"
    using evs(1) by (simp add: logEvent_def)
  have cr: "createdPaths (evs @ [CreateFolder cp n p]) = createdPaths evs @ [cp]"
    by (simp add: createdPaths_append)
  show "createdOnce t0 (logEvent (CreateFolder cp n p) s)"
    unfolding createdOnce_def using tr cr evs(2) new by auto
  show "creatingOnce t0 t" if "trace t = trace (logEvent (CreateFolder cp n p) s)"
    "folderIdCache t = (folderIdCache s)(cp \<mapsto> v)"
    unfolding creatingOnce_def using tr cr evs(2,3) new that by auto
qed

lemma ensureSegments_creatingOnce:
  "keeps (creatingOnce t0) (createdOnce t0) (ensureSegments E segs par cur)"
proof (induction segs arbitrary: par cur)
  case Nil
  show ?case by (simp add: keeps_returnE)
next
  case (Cons seg rest)
  let ?cp = "joinPath cur seg"
  let ?s' = "\<lambda>s. logEvent (FindFolder seg par) s"
  have rec: "case r of Inl e \<Rightarrow> createdOnce t0 s1 | Inr x \<Rightarrow> creatingOnce t0 s1"
    if "ensureSegments E rest j ?cp t = (r, s1)" "creatingOnce t0 t" for j t r s1
    using keepsD [OF Cons.IH that(2) that(1)] .
  show ?case
    unfolding keeps_def
  proof (intro allI impI)
    fix s assume I: "creatingOnce t0 s"
    obtain r s1 where run: "ensureSegments E (seg # rest) par cur s = (r, s1)"
      by (cases "ensureSegments E (seg # rest) par cur s")
    have I': "creatingOnce t0 (?s' s)"
      by (rule creatingOnce_logEvent [OF I]) (simp add: isCreateFolder_def)
    have "case r of Inl e \<Rightarrow> createdOnce t0 s1 | Inr x \<Rightarrow> creatingOnce t0 s1"
    proof (cases "folderIdCache s ?cp")
      case (Some j)
      then have "ensureSegments E rest j ?cp s = (r, s1)"
        using run ensureSegments_cached [OF Some] by simp
      then show ?thesis using I by (rule rec)
    next
      case None
      then have None': "folderIdCache (?s' s) ?cp = None" by (simp add: logEvent_def)
      from ensureSegments_uncached [OF None run]
      show ?thesis
      proof (elim disjE exE conjE)
        assume "r = Inl (Rejected (FindFolder seg par))" "s1 = logEvent (FindFolder seg par) s"
        then show ?thesis using I' by (simp add: creatingOnce_createdOnce)
      next
        fix i
        assume a: "ensureSegments E rest i ?cp
           ((?s' s)\<lparr>folderIdCache := (folderIdCache s)(?cp \<mapsto> i)\<rparr>) = (r, s1)"
        have "creatingOnce t0 ((?s' s)\<lparr>folderIdCache := (folderIdCache s)(?cp \<mapsto> i)\<rparr>)"
          by (rule creatingOnce_cached [OF I']) (simp_all add: logEvent_def)
        with a show ?thesis by (rule rec)
      next
        fix e
        assume "r = Inl e" "s1 = logEvent (CreateFolder ?cp seg par) (?s' s)"
        then show ?thesis using creatingOnce_create(1) [OF I' None'] by simp
      next
        fix i
        assume a: "ensureSegments E rest i ?cp
           ((logEvent (CreateFolder ?cp seg par) (?s' s))
              \<lparr>folderIdCache := (folderIdCache s)(?cp \<mapsto> i)\<rparr>) = (r, s1)"
        have "creatingOnce t0 ((logEvent (CreateFolder ?cp seg par) (?s' s))
              \<lparr>folderIdCache := (folderIdCache s)(?cp \<mapsto> i)\<rparr>)"
          by (rule creatingOnce_create(2) [OF I' None']) (simp_all add: logEvent_def)
        with a show ?thesis by (rule rec)
      qed
    qed
    then show "case ensureSegments E (seg # rest) par cur s of
            (Inl e, s') \<Rightarrow> createdOnce t0 s' | (Inr x, s') \<Rightarrow> creatingOnce t0 s'"
      using run by (simp split: sum.splits)
  qed
qed

lemma ensureFolderPathExists_creatingOnce:
  "keeps (creatingOnce t0) (createdOnce t0) (ensureFolderPathExists E p)"
  using ensureSegments_creatingOnce [of t0 E "segmentsOf p"]
  by (auto simp: keeps_def ensureFolderPathExists_def split: option.splits)

lemma creatingOnce_syncTransfers:
  assumes start: "creatingOnce t0 (s\<lparr>folderIdCache := Map.empty\<rparr>)"
    and run: "syncTransfers E td fd vf s = (r, s')"
  shows "createdOnce t0 s'"
proof -
  let ?I = "creatingOnce t0" and ?X = "createdOnce t0"
  note ens = ensureFolderPathExists_creatingOnce
  have sub: "\<And>s. ?I s \<Longrightarrow> ?X s" by (rule creatingOnce_createdOnce)
  have up: "\<And>f e. isUploadOf f e \<Longrightarrow> tolerates E ?I ?X e"
    by (rule creatingOnce_tolerates)
       (auto simp: isUploadOf_def isCreateFolder_def split: event.splits)
  have dl: "\<And>d. keeps ?I ?X (downloadFile E d)"
    by (rule downloadFile_keeps, rule creatingOnce_tolerates)
       (auto simp: isDownloadOf_def isCreateFolder_def split: event.splits)
  have hc: "\<And>f d. keeps ?I ?X (handleConflict E f d)"
    by (rule handleConflict_keeps [OF _ sub ens up dl])
       (auto intro!: creatingOnce_tolerates simp: isCreateFolder_def)
  have vs: "\<And>ls dm f c. keeps ?I ?X (vaultStep E td ls dm f c)"
    by (rule vaultStep_keeps [OF ens up _ hc])
       (auto intro!: creatingOnce_tolerates simp: isCreateFolder_def)
  have ds: "\<And>ls vm t d c. keeps ?I ?X (driveStep E td fd ls vm t d c)"
    by (rule driveStep_keeps [OF dl])
       (auto intro!: creatingOnce_tolerates simp: isCreateFolder_def)
  have "case syncTransfers E td fd vf s of (Inl e, s') \<Rightarrow> ?X s' | (Inr x, s') \<Rightarrow> ?I s'"
    by (intro syncTransfers_keeps vs ds sub start creatingOnce_tolerates)
       (simp_all add: isCreateFolder_def)
  then show ?thesis using run by (auto split: sum.splits intro: sub)
qed

lemma createdOnce_performSync:
  assumes run: "performSync E td fd vf now s = (r, s')"
  shows "\<exists>evs. trace s' = trace s @ evs \<and> distinct (createdPaths evs)"
proof -
  let ?s2 = "logEvent ValidateFolder (logEvent GetAccessToken s)"
  have start: "creatingOnce (trace s) (?s2\<lparr>folderIdCache := Map.empty\<rparr>)"
    by (simp add: creatingOnce_def logEvent_def)
  from run show ?thesis
  proof (cases rule: performSync_cases)
    case unconfigured
    then show ?thesis by simp
  next
    case (token e)
    then show ?thesis by (simp add: logEvent_def)
  next
    case (invalid e)
    then show ?thesis by (simp add: logEvent_def)
  next
    case (aborted e)
    from creatingOnce_syncTransfers [OF start aborted(2)] show ?thesis
      by (simp add: createdOnce_def)
  next
    case (unsaved c s3)
    from creatingOnce_syncTransfers [OF start unsaved(2)] show ?thesis
      unfolding unsaved(3) by (auto simp: createdOnce_def logEvent_def createdPaths_append)
  next
    case (synced c s3)
    from creatingOnce_syncTransfers [OF start synced(2)] show ?thesis
      unfolding synced(3) by (auto simp: createdOnce_def logEvent_def createdPaths_append)
  qed
qed

section \<open>What a completed run has done\<close>

lemma bindE_Inr:
  assumes "bindE m f s = (Inr y, s')"
  obtains x s1 where "m s = (Inr x, s1)" "f x s1 = (Inr y, s')"
  using assms by (auto simp: bindE_def split: prod.splits sum.splits)

lemma freshToken_Inr:
  "freshToken E err s = (Inr tok, s1) \<Longrightarrow> tok \<noteq> [] \<and> s1 = logEvent GetAccessToken s"
  by (auto simp: freshToken_def bindE_def await_def request_def logEvent_def throwE_def
      returnE_def split: option.splits if_splits)

lemma grown_keepsD:
  assumes "keeps (guarded (\<lambda>x. True) (trace s) (\<lambda>e. True))
             (guarded (\<lambda>x. True) (trace s) (\<lambda>e. True)) f"
    and "f s = (r, s1)"
  shows "\<exists>evs. trace s1 = trace s @ evs"
proof -
  have "guarded (\<lambda>x. True) (trace s) (\<lambda>e. True) s"
    by (simp add: guarded_def onlyLogged_def)
  from keepsD [OF assms(1) this assms(2)] show ?thesis
    by (auto simp: guarded_def onlyLogged_def split: sum.splits)
qed

lemma steps_keep_all:
  assumes tol: "\<And>e. tolerates E I X e" and sub: "\<And>s. I s \<Longrightarrow> X s" and cf: "cacheFree I"
  shows "keeps I X (vaultStep E td ls dm f c)"
    and "keeps I X (driveStep E td fd ls vm t d c)"
proof -
  have ens: "\<And>p. keeps I X (ensureFolderPathExists E p)"
    by (rule ensureFolderPathExists_keeps [OF tol cf])
  have dl: "\<And>d. keeps I X (downloadFile E d)"
    by (rule downloadFile_keeps [OF tol])
  have hc: "\<And>f d. keeps I X (handleConflict E f d)"
    by (rule handleConflict_keeps [OF tol sub ens tol dl tol])
  show "keeps I X (vaultStep E td ls dm f c)"
    by (rule vaultStep_keeps [OF ens tol _ hc]) (simp add: tol)
  show "keeps I X (driveStep E td fd ls vm t d c)"
    by (rule driveStep_keeps [OF dl tol])
qed

lemma vaultStep_grows:
  "vaultStep E td ls dm f c s = (r, s1) \<Longrightarrow> \<exists>evs. trace s1 = trace s @ evs"
  by (rule grown_keepsD [OF steps_keep_all(1) [OF guarded_tolerates _ guarded_cacheFree]])
     simp_all

lemma driveStep_grows:
  "driveStep E td fd ls vm t d c s = (r, s1) \<Longrightarrow> \<exists>evs. trace s1 = trace s @ evs"
  by (rule grown_keepsD [OF steps_keep_all(2) [OF guarded_tolerates _ guarded_cacheFree]])
     simp_all

lemma forEachE_grows:
  assumes grow: "\<And>x c s r s1. step x c s = (r, s1) \<Longrightarrow> \<exists>evs. trace s1 = trace s @ evs"
    and run: "forEachE step xs c s = (r, s')"
  shows "\<exists>evs. trace s' = trace s @ evs"
  using run
proof (induction xs arbitrary: c s)
  case Nil
  then show ?case by (simp add: returnE_def)
next
  case (Cons y ys)
  obtain r1 s1 where st: "step y c s = (r1, s1)" by (cases "step y c s")
  from grow [OF st] obtain e1 where e1: "trace s1 = trace s @ e1" by blast
  show ?case
  proof (cases r1)
    case (Inl e)
    then have "s' = s1" using Cons.prems st by (simp add: bindE_def)
    then show ?thesis using e1 by simp
  next
    case (Inr c1)
    then have "forEachE step ys c1 s1 = (r, s')" using Cons.prems st by (simp add: bindE_def)
    from Cons.IH [OF this] obtain e2 where "trace s' = trace s1 @ e2" by blast
    then show ?thesis using e1 by simp
  qed
qed

lemma forEachE_visits:
  assumes grow: "\<And>x c s r s1. step x c s = (r, s1) \<Longrightarrow> \<exists>evs. trace s1 = trace s @ evs"
    and run: "forEachE step xs c s = (Inr c', s')" and mem: "x \<in> set xs"
  shows "\<exists>c0 s0 c1 s1 pre post. step x c0 s0 = (Inr c1, s1) \<and>
           trace s0 = trace s @ pre \<and> trace s' = trace s1 @ post"
  using run mem
proof (induction xs arbitrary: c s)
  case Nil
  then show ?case by simp
next
  case (Cons y ys)
  from Cons.prems(1) obtain c2 s2 where st: "step y c s = (Inr c2, s2)"
    and rest: "forEachE step ys c2 s2 = (Inr c', s')"
    by (auto simp: bindE_def split: prod.splits sum.splits)
  from grow [OF st] obtain e1 where e1: "trace s2 = trace s @ e1" by blast
  have "\<exists>evs. trace s' = trace s2 @ evs"
    by (rule forEachE_grows [OF _ rest]) (rule grow)
  then obtain e2 where e2: "trace s' = trace s2 @ e2" by blast
  show ?case
  proof (cases "x = y")
    case True
    have "step x c s = (Inr c2, s2) \<and> trace s = trace s @ [] \<and> trace s' = trace s2 @ e2"
      using st e2 True by simp
    then show ?thesis by blast
  next
    case False
    then have "x \<in> set ys" using Cons.prems(2) by simp
    from Cons.IH [OF rest this] obtain c0 s0 c1 s1 pre post
      where "step x c0 s0 = (Inr c1, s1)" "trace s0 = trace s2 @ pre" "trace s' = trace s1 @ post"
      by blast
    then have "step x c0 s0 = (Inr c1, s1) \<and> trace s0 = trace s @ (e1 @ pre) \<and>
        trace s' = trace s1 @ post"
      using e1 by simp
    then show ?thesis by blast
  qed
qed

lemma driveStep_remoteOnly_done:
  assumes absent: "vm (df_path d) = None"
    and fin: "driveStep E td fd W vm tok d c0 s0 = (Inr c1, s1)"
  shows "(fd \<and> df_modifiedTime d > W + 2000 \<longrightarrow>
            trace s1 = trace s0 @ [DownloadGet d, VaultWrite (df_path d)])
       \<and> (\<not> df_modifiedTime d > W + 2000 \<and> td \<and> tok \<noteq> [] \<longrightarrow>
            trace s1 = trace s0 @ [DeleteReq d])"
  using absent fin
  by (auto simp: driveStep_def bindE_def downloadFile_def fetch_def await_def request_def
      deleteRemote_def returnE_def split: response.splits option.splits if_splits)

lemma syncTransfers_done:
  assumes fin: "syncTransfers E td True vf s = (Inr c, s3)"
  shows "\<exists>dfs tok c1 sb pre.
           list_r E (length (trace s)) = Ok dfs \<and> tok \<noteq> [] \<and>
           forEachE (driveStep E td True (lastSyncTime (settings s)) (buildMap tf_path vf) tok)
             dfs c1 sb = (Inr c, s3) \<and>
           trace sb = trace s @ pre"
proof -
  let ?s0 = "s\<lparr>folderIdCache := Map.empty\<rparr>"
  let ?W = "lastSyncTime (settings s)"
  from fin have body: "bindE (getDriveFilesRecursive E)
       (\<lambda>driveFiles s.
          bindE (freshToken E UploadTokenFailed)
                (\<lambda>currentAccessToken.
                 bindE (forEachE (vaultStep E td (lastSyncTime (settings s))
                          (buildMap df_path driveFiles)) vf noCounts)
                (\<lambda>c1.
                 bindE (freshToken E DownloadTokenFailed)
                (\<lambda>downloadAccessToken.
                   forEachE (driveStep E td True (lastSyncTime (settings s))
                               (buildMap tf_path vf) downloadAccessToken) driveFiles c1))) s)
       ?s0 = (Inr c, s3)"
    by (simp add: syncTransfers_def Let_def)
  from body obtain dfs sa where lst: "getDriveFilesRecursive E ?s0 = (Inr dfs, sa)"
    and r1: "bindE (freshToken E UploadTokenFailed)
                (\<lambda>currentAccessToken.
                 bindE (forEachE (vaultStep E td (lastSyncTime (settings sa))
                          (buildMap df_path dfs)) vf noCounts)
                (\<lambda>c1.
                 bindE (freshToken E DownloadTokenFailed)
                (\<lambda>downloadAccessToken.
                   forEachE (driveStep E td True (lastSyncTime (settings sa))
                               (buildMap tf_path vf) downloadAccessToken) dfs c1))) sa
            = (Inr c, s3)"
    by (rule bindE_Inr)
  have lst': "list_r E (length (trace s)) = Ok dfs" "sa = logEvent ListDrive ?s0"
    using lst by (auto simp: getDriveFilesRecursive_def fetch_def request_def logEvent_def
        split: response.splits)
  have W: "lastSyncTime (settings sa) = ?W" and tsa: "trace sa = trace s @ [ListDrive]"
    using lst'(2) by (simp_all add: logEvent_def)
  from r1 obtain t1 sb1 where ft1: "freshToken E UploadTokenFailed sa = (Inr t1, sb1)"
    and r2: "bindE (forEachE (vaultStep E td (lastSyncTime (settings sa))
                          (buildMap df_path dfs)) vf noCounts)
                (\<lambda>c1.
                 bindE (freshToken E DownloadTokenFailed)
                (\<lambda>downloadAccessToken.
                   forEachE (driveStep E td True (lastSyncTime (settings sa))
                               (buildMap tf_path vf) downloadAccessToken) dfs c1)) sb1
            = (Inr c, s3)"
    by (rule bindE_Inr)
  have tsb1: "trace sb1 = trace sa @ [GetAccessToken]"
    using freshToken_Inr [OF ft1] by (simp add: logEvent_def)
  from r2 obtain c1 sv where vl: "forEachE (vaultStep E td (lastSyncTime (settings sa))
                          (buildMap df_path dfs)) vf noCounts sb1 = (Inr c1, sv)"
    and r3: "bindE (freshToken E DownloadTokenFailed)
                (\<lambda>downloadAccessToken.
                   forEachE (driveStep E td True (lastSyncTime (settings sa))
                               (buildMap tf_path vf) downloadAccessToken) dfs c1) sv
            = (Inr c, s3)"
    by (rule bindE_Inr)
  have "\<exists>evs. trace sv = trace sb1 @ evs"
    by (rule forEachE_grows [OF _ vl]) (rule vaultStep_grows)
  then obtain e3 where tsv: "trace sv = trace sb1 @ e3" by blast
  from r3 obtain tok sb where ft2: "freshToken E DownloadTokenFailed sv = (Inr tok, sb)"
    and dl: "forEachE (driveStep E td True (lastSyncTime (settings sa))
                               (buildMap tf_path vf) tok) dfs c1 sb = (Inr c, s3)"
    by (rule bindE_Inr)
  have tok: "tok \<noteq> []" and tsb: "trace sb = trace sv @ [GetAccessToken]"
    using freshToken_Inr [OF ft2] by (simp_all add: logEvent_def)
  have "trace sb = trace s @ ([ListDrive, GetAccessToken] @ e3 @ [GetAccessToken])"
    using tsb tsv tsb1 tsa by simp
  then show ?thesis using lst'(1) tok dl W by metis
qed

section \<open>Paths that both sides have\<close>

text \<open>
  Claim C1 does not hold of the code. A path modified on both sides later than the
  watermark plus 2000 ms is a conflict candidate only in a run with \<open>toDrive\<close> set: there
  the contents are compared and, being different, the conflict is resolved and counted.
  In a run from Drive only, on the same snapshots, the path is passed over: nothing is
  compared, nothing is counted, and the watermark advances. This is the defect of the
  run from Drive only stated below for claim C7.
\<close>

theorem conflict_candidate_only_with_toDrive:
  "tf_mtime (localNote 1700000010000) > 1700000000000 + 2000 \<and>
   df_modifiedTime (remoteNote 1700000010000) > 1700000000000 + 2000 \<and>
   fst (performSync (worldOk [remoteNote 1700000010000] ''X'' ''Y'') True True
          [localNote 1700000010000] 1700000020000 (pluginState Overwrite 1700000000000))
     = Synced (noCounts\<lparr>conflicts := 1\<rparr>) \<and>
   trace (snd (performSync (worldOk [remoteNote 1700000010000] ''X'' ''Y'') True True
          [localNote 1700000010000] 1700000020000 (pluginState Overwrite 1700000000000)))
     = [GetAccessToken, ValidateFolder, ListDrive, GetAccessToken,
        CompareRead (localNote 1700000010000), CompareGet (remoteNote 1700000010000),
        GetAccessToken, VaultRead (localNote 1700000010000),
        UploadUpdate (localNote 1700000010000) ''id-a'', GetAccessToken, SaveData] \<and>
   fst (performSync (worldOk [remoteNote 1700000010000] ''X'' ''Y'') False True
          [localNote 1700000010000] 1700000020000 (pluginState Overwrite 1700000000000))
     = Synced noCounts \<and>
   trace (snd (performSync (worldOk [remoteNote 1700000010000] ''X'' ''Y'') False True
          [localNote 1700000010000] 1700000020000 (pluginState Overwrite 1700000000000)))
     = [GetAccessToken, ValidateFolder, ListDrive, GetAccessToken, GetAccessToken, SaveData] \<and>
   lastSyncTime (saved (snd (performSync (worldOk [remoteNote 1700000010000] ''X'' ''Y'') False
          True [localNote 1700000010000] 1700000020000 (pluginState Overwrite 1700000000000))))
     = 1700000020000"
  by code_simp

section \<open>Paths that only Drive has\<close>

text \<open>
  Claim C2, as amended. Let \<open>d\<close> be a Drive file whose path the vault does not have, and
  \<open>W\<close> the watermark at the start of a run of \<open>performSync\<close>. Whatever the outcome of the
  run: no delete request is sent for \<open>d\<close> when \<open>d\<close> was modified later than \<open>W + 2000\<close>
  or \<open>toDrive\<close> is not set, and \<open>d\<close> is not downloaded when \<open>fromDrive\<close> is not set or \<open>d\<close>
  was not modified later than \<open>W + 2000\<close>. In a run with \<open>fromDrive\<close> set that completes,
  for \<open>d\<close> in the listing the run got from Drive: when \<open>d\<close> was modified later than
  \<open>W + 2000\<close>, the run has requested the content of \<open>d\<close> and then written it to the vault
  at the path of \<open>d\<close>; otherwise, when \<open>toDrive\<close> is set, the run has sent a delete request
  for \<open>d\<close>.
\<close>

theorem remoteOnly_classification:
  assumes absent: "buildMap tf_path vaultFiles (df_path d) = None"
    and run: "performSync E toDrive fromDrive vaultFiles now s = (r, s')"
  shows "\<exists>evs. trace s' = trace s @ evs \<and>
     (df_modifiedTime d > lastSyncTime (settings s) + 2000 \<or> \<not> toDrive \<longrightarrow>
        DeleteReq d \<notin> set evs) \<and>
     (\<not> fromDrive \<or> \<not> df_modifiedTime d > lastSyncTime (settings s) + 2000 \<longrightarrow>
        DownloadGet d \<notin> set evs) \<and>
     (\<forall>c dfs. fromDrive \<and> r = Synced c \<and> list_r E (length (trace s) + 2) = Ok dfs \<and>
        d \<in> set dfs \<longrightarrow>
          (df_modifiedTime d > lastSyncTime (settings s) + 2000 \<longrightarrow>
             (\<exists>pre post. evs = pre @ [DownloadGet d, VaultWrite (df_path d)] @ post))
        \<and> (\<not> df_modifiedTime d > lastSyncTime (settings s) + 2000 \<and> toDrive \<longrightarrow>
             DeleteReq d \<in> set evs))"
proof -
  let ?W = "lastSyncTime (settings s)"
  let ?s2 = "logEvent ValidateFolder (logEvent GetAccessToken s)"
  have "\<exists>evs. trace s' = trace s @ evs \<and> list_all (\<lambda>e. True) evs"
    by (rule guarded_performSync [where K = "\<lambda>x. True", OF _ _ _ _ _ run]) simp_all
  then obtain evs where evs: "trace s' = trace s @ evs" by blast
  have nodel: "DeleteReq d \<notin> set evs" if "df_modifiedTime d > ?W + 2000 \<or> \<not> toDrive"
  proof -
    have "\<exists>evs. trace s' = trace s @ evs \<and> list_all (\<lambda>e. e \<noteq> DeleteReq d) evs"
    proof (rule guarded_performSync [where K = "\<lambda>x. lastSyncTime x = ?W", OF _ _ _ _ _ run])
      fix e :: event assume "\<not> isDeleteReq e"
      then show "e \<noteq> DeleteReq d" by (auto simp: isDeleteReq_def)
    next
      fix x :: sync_settings and d' :: dfile
      assume "lastSyncTime x = ?W" "toDrive" "\<not> lastSyncTime x + 2000 < df_modifiedTime d'"
      then show "DeleteReq d' \<noteq> DeleteReq d" using that by auto
    qed simp_all
    then show ?thesis using evs by (auto simp: list_all_iff)
  qed
  have nodl: "DownloadGet d \<notin> set evs" if "\<not> fromDrive \<or> \<not> df_modifiedTime d > ?W + 2000"
  proof -
    have "\<exists>evs. trace s' = trace s @ evs \<and> list_all (\<lambda>e. e \<noteq> DownloadGet d) evs"
    proof (rule guarded_performSync [where K = "\<lambda>x. lastSyncTime x = ?W", OF _ _ _ _ _ run])
      fix e :: event assume "\<not> isDownloadGet e"
      then show "e \<noteq> DownloadGet d" by (auto simp: isDownloadGet_def)
    next
      fix dfs :: "dfile list" and f :: tfile and d' :: dfile
      assume f: "f \<in> set vaultFiles" and d': "buildMap df_path dfs (tf_path f) = Some d'"
      have "df_path d' = tf_path f" using buildMap_Some [OF d'] by simp
      moreover have "buildMap tf_path vaultFiles (tf_path f) \<noteq> None"
        using f by (rule buildMap_member)
      ultimately show "DownloadGet d' \<noteq> DownloadGet d" using absent by auto
    next
      fix x :: sync_settings and d' :: dfile
      assume "lastSyncTime x = ?W" "fromDrive" "lastSyncTime x + 2000 < df_modifiedTime d'"
      then show "DownloadGet d' \<noteq> DownloadGet d" using that by auto
    qed simp_all
    then show ?thesis using evs by (auto simp: list_all_iff)
  qed
  have completed: "(df_modifiedTime d > ?W + 2000 \<longrightarrow>
             (\<exists>pre post. evs = pre @ [DownloadGet d, VaultWrite (df_path d)] @ post))
        \<and> (\<not> df_modifiedTime d > ?W + 2000 \<and> toDrive \<longrightarrow> DeleteReq d \<in> set evs)"
    if fd: "fromDrive" and ok: "r = Synced c" and lst: "list_r E (length (trace s) + 2) = Ok dfs"
      and mem: "d \<in> set dfs" for c dfs
  proof -
    from run obtain c' s3 where st: "syncTransfers E toDrive fromDrive vaultFiles ?s2 = (Inr c', s3)"
      and s': "trace s' = trace s3 @ [SaveData]"
      using ok by (cases rule: performSync_cases) (auto simp: logEvent_def)
    have l2: "length (trace ?s2) = length (trace s) + 2" "lastSyncTime (settings ?s2) = ?W"
      "trace ?s2 = trace s @ [GetAccessToken, ValidateFolder]"
      by (simp_all add: logEvent_def)
    from syncTransfers_done [OF st [unfolded fd [THEN eqTrueI]]]
    obtain dfs' tok c1 sb pre where
      lst': "list_r E (length (trace ?s2)) = Ok dfs'" and tok: "tok \<noteq> []"
      and loop: "forEachE (driveStep E toDrive True (lastSyncTime (settings ?s2))
                   (buildMap tf_path vaultFiles) tok) dfs' c1 sb = (Inr c', s3)"
      and tsb: "trace sb = trace ?s2 @ pre"
      by blast
    have "dfs' = dfs" using lst lst' l2(1) by simp
    then have mem': "d \<in> set dfs'" using mem by simp
    have "\<exists>c0 s0 c1' s1 pre' post.
        driveStep E toDrive True (lastSyncTime (settings ?s2)) (buildMap tf_path vaultFiles) tok
          d c0 s0 = (Inr c1', s1) \<and> trace s0 = trace sb @ pre' \<and> trace s3 = trace s1 @ post"
      by (rule forEachE_visits [OF _ loop mem']) (rule driveStep_grows)
    then obtain c0 s0 c1' s1 pre' post where
      step: "driveStep E toDrive True ?W (buildMap tf_path vaultFiles) tok d c0 s0 = (Inr c1', s1)"
      and ts0: "trace s0 = trace sb @ pre'" and ts3: "trace s3 = trace s1 @ post"
      using l2(2) by auto
    note eff = driveStep_remoteOnly_done [OF absent step]
    have whole: "evs = [GetAccessToken, ValidateFolder] @ pre @ pre' @ mid @ post @ [SaveData]"
      if "trace s1 = trace s0 @ mid" for mid
      using that evs s' ts3 ts0 tsb l2(3) by simp
    have a: "\<exists>pre post. evs = pre @ [DownloadGet d, VaultWrite (df_path d)] @ post"
      if "df_modifiedTime d > ?W + 2000"
    proof -
      have "trace s1 = trace s0 @ [DownloadGet d, VaultWrite (df_path d)]"
        using eff that by simp
      from whole [OF this]
      have "evs = ([GetAccessToken, ValidateFolder] @ pre @ pre')
                  @ [DownloadGet d, VaultWrite (df_path d)] @ (post @ [SaveData])"
        by simp
      then show ?thesis by blast
    qed
    have b: "DeleteReq d \<in> set evs" if "\<not> df_modifiedTime d > ?W + 2000" "toDrive"
    proof -
      have "trace s1 = trace s0 @ [DeleteReq d]" using eff that tok by simp
      from whole [OF this] show ?thesis by simp
    qed
    show ?thesis using a b by blast
  qed
  show ?thesis using evs nodel nodl completed by blast
qed

theorem remoteOnly_classification_witness:
  "buildMap tf_path [] (df_path (remoteNote 1700000010000)) = None \<and>
   fst (performSync (worldOk [remoteNote 1700000010000] ''X'' ''Y'') True True []
          1700000020000 (pluginState Overwrite 1700000000000))
     = Synced (noCounts\<lparr>downloaded := 1\<rparr>) \<and>
   list_r (worldOk [remoteNote 1700000010000] ''X'' ''Y'')
       (length (trace (pluginState Overwrite 1700000000000)) + 2)
     = Ok [remoteNote 1700000010000] \<and>
   df_modifiedTime (remoteNote 1700000010000)
     > lastSyncTime (settings (pluginState Overwrite 1700000000000)) + 2000 \<and>
   (\<exists>evs. trace (snd (performSync (worldOk [remoteNote 1700000010000] ''X'' ''Y'') True True []
                  1700000020000 (pluginState Overwrite 1700000000000)))
             = trace (pluginState Overwrite 1700000000000) @ evs \<and>
          DeleteReq (remoteNote 1700000010000) \<notin> set evs \<and>
          (\<exists>pre post. evs = pre @ [DownloadGet (remoteNote 1700000010000),
                                    VaultWrite (df_path (remoteNote 1700000010000))] @ post)) \<and>
   buildMap tf_path [] (df_path (remoteNote 1600000000000)) = None \<and>
   fst (performSync (worldOk [remoteNote 1600000000000] ''X'' ''Y'') True True []
          1700000020000 (pluginState Overwrite 1700000000000))
     = Synced (noCounts\<lparr>deleted := 1\<rparr>) \<and>
   \<not> df_modifiedTime (remoteNote 1600000000000)
     > lastSyncTime (settings (pluginState Overwrite 1700000000000)) + 2000 \<and>
   (\<exists>evs. trace (snd (performSync (worldOk [remoteNote 1600000000000] ''X'' ''Y'') True True []
                  1700000020000 (pluginState Overwrite 1700000000000)))
             = trace (pluginState Overwrite 1700000000000) @ evs \<and>
          DownloadGet (remoteNote 1600000000000) \<notin> set evs \<and>
          DeleteReq (remoteNote 1600000000000) \<in> set evs)"
proof -
  let ?s = "pluginState Overwrite 1700000000000"
  let ?dn = "remoteNote 1700000010000"
  let ?dold = "remoteNote 1600000000000"
  let ?E1 = "worldOk [?dn] ''X'' ''Y''"
  let ?E2 = "worldOk [?dold] ''X'' ''Y''"
  let ?run1 = "performSync ?E1 True True [] 1700000020000 ?s"
  let ?run2 = "performSync ?E2 True True [] 1700000020000 ?s"
  have a1: "buildMap tf_path [] (df_path ?dn) = None" by (simp add: buildMap_def)
  have a2: "buildMap tf_path [] (df_path ?dold) = None" by (simp add: buildMap_def)
  have r1: "fst ?run1 = Synced (noCounts\<lparr>downloaded := 1\<rparr>)" by code_simp
  have r2: "fst ?run2 = Synced (noCounts\<lparr>deleted := 1\<rparr>)" by code_simp
  have l1: "list_r ?E1 (length (trace ?s) + 2) = Ok [?dn]" by (simp add: worldOk_def)
  have l2: "list_r ?E2 (length (trace ?s) + 2) = Ok [?dold]" by (simp add: worldOk_def)
  have m1: "df_modifiedTime ?dn > lastSyncTime (settings ?s) + 2000"
    by (simp add: remoteNote_def pluginState_def)
  have m2: "\<not> df_modifiedTime ?dold > lastSyncTime (settings ?s) + 2000"
    by (simp add: remoteNote_def pluginState_def)
  have e1: "?run1 = (fst ?run1, snd ?run1)" by simp
  have e2: "?run2 = (fst ?run2, snd ?run2)" by simp
  from remoteOnly_classification [OF a1 e1] obtain evs1 where
    t1: "trace (snd ?run1) = trace ?s @ evs1"
    and n1: "df_modifiedTime ?dn > lastSyncTime (settings ?s) + 2000 \<or> \<not> True \<longrightarrow>
        DeleteReq ?dn \<notin> set evs1"
    and p1: "\<forall>c dfs. True \<and> fst ?run1 = Synced c \<and> list_r ?E1 (length (trace ?s) + 2) = Ok dfs \<and>
        ?dn \<in> set dfs \<longrightarrow>
          (df_modifiedTime ?dn > lastSyncTime (settings ?s) + 2000 \<longrightarrow>
             (\<exists>pre post. evs1 = pre @ [DownloadGet ?dn, VaultWrite (df_path ?dn)] @ post))
        \<and> (\<not> df_modifiedTime ?dn > lastSyncTime (settings ?s) + 2000 \<and> True \<longrightarrow>
             DeleteReq ?dn \<in> set evs1)"
    by blast
  have d1: "\<exists>pre post. evs1 = pre @ [DownloadGet ?dn, VaultWrite (df_path ?dn)] @ post"
    using p1 [rule_format, of "noCounts\<lparr>downloaded := 1\<rparr>" "[?dn]"] r1 l1 m1 by simp
  have w1: "\<exists>evs. trace (snd ?run1) = trace ?s @ evs \<and> DeleteReq ?dn \<notin> set evs \<and>
          (\<exists>pre post. evs = pre @ [DownloadGet ?dn, VaultWrite (df_path ?dn)] @ post)"
    using t1 n1 m1 d1 by blast
  from remoteOnly_classification [OF a2 e2] obtain evs2 where
    t2: "trace (snd ?run2) = trace ?s @ evs2"
    and n2: "\<not> True \<or> \<not> df_modifiedTime ?dold > lastSyncTime (settings ?s) + 2000 \<longrightarrow>
        DownloadGet ?dold \<notin> set evs2"
    and p2: "\<forall>c dfs. True \<and> fst ?run2 = Synced c \<and> list_r ?E2 (length (trace ?s) + 2) = Ok dfs \<and>
        ?dold \<in> set dfs \<longrightarrow>
          (df_modifiedTime ?dold > lastSyncTime (settings ?s) + 2000 \<longrightarrow>
             (\<exists>pre post. evs2 = pre @ [DownloadGet ?dold, VaultWrite (df_path ?dold)] @ post))
        \<and> (\<not> df_modifiedTime ?dold > lastSyncTime (settings ?s) + 2000 \<and> True \<longrightarrow>
             DeleteReq ?dold \<in> set evs2)"
    by blast
  have d2: "DeleteReq ?dold \<in> set evs2"
    using p2 [rule_format, of "noCounts\<lparr>deleted := 1\<rparr>" "[?dold]"] r2 l2 m2 by simp
  have w2: "\<exists>evs. trace (snd ?run2) = trace ?s @ evs \<and> DownloadGet ?dold \<notin> set evs \<and>
          DeleteReq ?dold \<in> set evs"
    using t2 n2 m2 d2 by blast
  show ?thesis by (intro conjI a1 r1 l1 m1 w1 a2 r2 m2 w2)
qed

text \<open>
  Claim C2 as stated fails in a one-way run to Drive: a Drive file that the vault does
  not have, modified after the watermark, is not downloaded (and nothing else is done
  for it).
\<close>

theorem remoteOnly_not_downloaded_oneWay:
  "buildMap tf_path [] (df_path (remoteNote 1700000010000)) = None \<and>
   df_modifiedTime (remoteNote 1700000010000) > 1700000000000 + 2000 \<and>
   fst (performSync (worldOk [remoteNote 1700000010000] ''X'' ''Y'') True False []
          1700000020000 (pluginState Overwrite 1700000000000)) = Synced noCounts \<and>
   trace (snd (performSync (worldOk [remoteNote 1700000010000] ''X'' ''Y'') True False []
          1700000020000 (pluginState Overwrite 1700000000000)))
     = [GetAccessToken, ValidateFolder, ListDrive, GetAccessToken, GetAccessToken, SaveData]"
  by code_simp

section \<open>The watermark\<close>

text \<open>
  Claim C3, as amended. After a run that completes, \<open>lastSyncTime\<close> in memory and on
  disk is the clock reading \<open>now\<close> taken after both loops; it is not below the watermark
  before the run whenever that reading is not. After a run that does not complete, the
  settings on disk are unchanged, and the settings in memory too unless the failure is
  the rejected save itself.
\<close>

theorem watermark_after_run:
  assumes run: "performSync E toDrive fromDrive vaultFiles now s = (r, s')"
  shows "(\<forall>c. r = Synced c \<longrightarrow>
            lastSyncTime (settings s') = now \<and> saved s' = settings s' \<and>
            (lastSyncTime (settings s) \<le> now \<longrightarrow>
               lastSyncTime (settings s) \<le> lastSyncTime (settings s')) \<and>
            (lastSyncTime (saved s) \<le> now \<longrightarrow>
               lastSyncTime (saved s) \<le> lastSyncTime (saved s')))
       \<and> ((\<forall>c. r \<noteq> Synced c) \<longrightarrow>
            saved s' = saved s \<and>
            (r \<noteq> SyncFailed (Rejected SaveData) \<longrightarrow> settings s' = settings s))"
  using run
proof (cases rule: performSync_cases)
  case unconfigured
  then show ?thesis by simp
next
  case (token e)
  then show ?thesis by (simp add: logEvent_def)
next
  case (invalid e)
  then show ?thesis by (simp add: logEvent_def)
next
  case (aborted e)
  from transferring_syncTransfers [OF aborted(2)] show ?thesis
    using aborted(1) by (simp add: stopped_def logEvent_def)
next
  case (unsaved c s3)
  from transferring_syncTransfers [OF unsaved(2)] show ?thesis
    using unsaved(1,3) by (simp add: transferring_def logEvent_def)
next
  case (synced c s3)
  from transferring_syncTransfers [OF synced(2)] show ?thesis
    using synced(1,3) by (simp add: transferring_def logEvent_def)
qed

theorem watermark_after_run_witness:
  "fst (performSync (worldOk [] ''X'' ''Y'') True True [] 1700000020000
          (pluginState Overwrite 1700000000000)) = Synced noCounts \<and>
   lastSyncTime (settings (pluginState Overwrite 1700000000000)) \<le> 1700000020000 \<and>
   lastSyncTime (settings (pluginState Overwrite 1700000000000))
     \<le> lastSyncTime (settings (snd (performSync (worldOk [] ''X'' ''Y'') True True []
            1700000020000 (pluginState Overwrite 1700000000000)))) \<and>
   fst (performSync worldUploadFails True True [localNote 1700000010000]
          1700000020000 (pluginState Overwrite 1700000000000)) = SyncFailed (UploadFailed 500) \<and>
   saved (snd (performSync worldUploadFails True True [localNote 1700000010000]
          1700000020000 (pluginState Overwrite 1700000000000)))
     = saved (pluginState Overwrite 1700000000000)"
proof -
  let ?ok = "performSync (worldOk [] ''X'' ''Y'') True True [] 1700000020000
          (pluginState Overwrite 1700000000000)"
  let ?ko = "performSync worldUploadFails True True [localNote 1700000010000]
          1700000020000 (pluginState Overwrite 1700000000000)"
  have r1: "fst ?ok = Synced noCounts" by code_simp
  have r2: "fst ?ko = SyncFailed (UploadFailed 500)" by code_simp
  have w: "lastSyncTime (settings (pluginState Overwrite 1700000000000)) \<le> 1700000020000"
    by (simp add: pluginState_def)
  have e1: "?ok = (fst ?ok, snd ?ok)" by simp
  have e2: "?ko = (fst ?ko, snd ?ko)" by simp
  show ?thesis
    using watermark_after_run [OF e1] watermark_after_run [OF e2] r1 r2 w by simp
qed

text \<open>
  Claim C3 as stated fails when the clock reads earlier than the stored watermark (a
  clock set back, or settings written by a device whose clock is ahead): the run
  completes and the watermark goes down.
\<close>

theorem watermark_can_decrease:
  "fst (performSync (worldOk [] ''X'' ''Y'') True True [] 1699999990000
          (pluginState Overwrite 1700000000000)) = Synced noCounts \<and>
   lastSyncTime (saved (snd (performSync (worldOk [] ''X'' ''Y'') True True [] 1699999990000
          (pluginState Overwrite 1700000000000))))
     < lastSyncTime (saved (pluginState Overwrite 1700000000000))"
  by code_simp

section \<open>Content comparison\<close>

text \<open>
  Claim C4. \<open>filesHaveIdenticalContent\<close> decides in this order: different sizes are
  not identical; two empty files are identical; a binary MIME type (of the vault file's
  name) is identical on equal sizes, without any read (the state is unchanged); otherwise
  the vault file is read and the Drive content is fetched, and the answer is the equality
  of the two digests; a failed read, a rejected fetch or a non-OK response give not
  identical.
\<close>

theorem filesHaveIdenticalContent_policy:
  "(tf_size vf \<noteq> driveSize df \<longrightarrow> filesHaveIdenticalContent E vf df s = (False, s))
 \<and> (tf_size vf = driveSize df \<and> tf_size vf = 0 \<longrightarrow>
       filesHaveIdenticalContent E vf df s = (True, s))
 \<and> (tf_size vf = driveSize df \<and> tf_size vf \<noteq> 0 \<and> isBinaryFile (getMimeType (tf_name vf)) \<longrightarrow>
       filesHaveIdenticalContent E vf df s = (True, s))
 \<and> (tf_size vf = driveSize df \<and> tf_size vf \<noteq> 0 \<and> \<not> isBinaryFile (getMimeType (tf_name vf)) \<longrightarrow>
       (read_r E (length (trace s)) = None \<longrightarrow>
          filesHaveIdenticalContent E vf df s = (False, logEvent (CompareRead vf) s))
     \<and> (\<forall>vc. read_r E (length (trace s)) = Some vc \<longrightarrow>
          (download_r E (Suc (length (trace s))) = Thrown \<longrightarrow>
             filesHaveIdenticalContent E vf df s =
               (False, logEvent (CompareGet df) (logEvent (CompareRead vf) s)))
        \<and> (\<forall>code. download_r E (Suc (length (trace s))) = NotOk code \<longrightarrow>
             filesHaveIdenticalContent E vf df s =
               (False, logEvent (CompareGet df) (logEvent (CompareRead vf) s)))
        \<and> (\<forall>dc. download_r E (Suc (length (trace s))) = Ok dc \<longrightarrow>
             filesHaveIdenticalContent E vf df s =
               (md5 E vc = md5 E dc, logEvent (CompareGet df) (logEvent (CompareRead vf) s)))))"
  by (simp add: filesHaveIdenticalContent_def request_def logEvent_def)

theorem filesHaveIdenticalContent_policy_witness:
  "(tf_size (localNote 5) \<noteq> driveSize ((remoteNote 5)\<lparr>df_size := Some 2\<rparr>) \<and>
    filesHaveIdenticalContent (worldOk [] ''X'' ''X'') (localNote 5)
       ((remoteNote 5)\<lparr>df_size := Some 2\<rparr>) (pluginState Overwrite 0)
      = (False, pluginState Overwrite 0))
 \<and> (tf_size ((localNote 5)\<lparr>tf_size := 0\<rparr>) = driveSize ((remoteNote 5)\<lparr>df_size := None\<rparr>) \<and>
    filesHaveIdenticalContent (worldOk [] ''X'' ''Y'') ((localNote 5)\<lparr>tf_size := 0\<rparr>)
       ((remoteNote 5)\<lparr>df_size := None\<rparr>) (pluginState Overwrite 0)
      = (True, pluginState Overwrite 0))
 \<and> (isBinaryFile (getMimeType (tf_name ((localNote 5)\<lparr>tf_name := ''a.png''\<rparr>))) \<and>
    filesHaveIdenticalContent (worldOk [] ''X'' ''Y'') ((localNote 5)\<lparr>tf_name := ''a.png''\<rparr>)
       (remoteNote 5) (pluginState Overwrite 0)
      = (True, pluginState Overwrite 0))
 \<and> (\<not> isBinaryFile (getMimeType (tf_name (localNote 5))) \<and>
    read_r (worldOk [] ''X'' ''Y'') (length (trace (pluginState Overwrite 0))) = Some ''X'' \<and>
    download_r (worldOk [] ''X'' ''Y'') (Suc (length (trace (pluginState Overwrite 0)))) = Ok ''Y'' \<and>
    filesHaveIdenticalContent (worldOk [] ''X'' ''Y'') (localNote 5) (remoteNote 5)
       (pluginState Overwrite 0)
      = (False, logEvent (CompareGet (remoteNote 5))
                  (logEvent (CompareRead (localNote 5)) (pluginState Overwrite 0))))"
proof -
  have bin: "isBinaryFile (getMimeType ''a.png'')" by code_simp
  have nonbin: "\<not> isBinaryFile (getMimeType ''a.md'')" by code_simp
  show ?thesis
    using filesHaveIdenticalContent_policy [of "localNote 5" "(remoteNote 5)\<lparr>df_size := Some 2\<rparr>"
        "worldOk [] ''X'' ''X''" "pluginState Overwrite 0"]
      filesHaveIdenticalContent_policy [of "(localNote 5)\<lparr>tf_size := 0\<rparr>"
        "(remoteNote 5)\<lparr>df_size := None\<rparr>" "worldOk [] ''X'' ''Y''" "pluginState Overwrite 0"]
      filesHaveIdenticalContent_policy [of "(localNote 5)\<lparr>tf_name := ''a.png''\<rparr>"
        "remoteNote 5" "worldOk [] ''X'' ''Y''" "pluginState Overwrite 0"]
      filesHaveIdenticalContent_policy [of "localNote 5" "remoteNote 5"
        "worldOk [] ''X'' ''Y''" "pluginState Overwrite 0"]
      bin nonbin
    by (simp add: localNote_def remoteNote_def driveSize_def worldOk_def)
qed

section \<open>Folder path materialization is memoized\<close>

text \<open>
  Claim C5. \<open>ensureFolderPathExists\<close>:
  \<^item> called again right after a call that returned an id, it returns the same id and
    makes no call at all (the state is unchanged, whatever Drive would answer); the same
    holds in every later state whose cache extends the cache left by the first call, for
    a path that is the join of its own segments and is neither empty nor \<open>.\<close>;
  \<^item> it never removes or overwrites a cache entry, and never caches the empty path;
  \<^item> for the empty path, not cached, it returns the configured folder id;
  \<^item> over a whole run of \<open>performSync\<close> (which clears the cache first), no two folder
    creation requests are made for the same cumulative path.
\<close>

theorem ensureFolderPathExists_memoized:
  "(ensureFolderPathExists E p s = (Inr i, s1) \<longrightarrow>
       ensureFolderPathExists E' p s1 = (Inr i, s1)
     \<and> (p = foldl joinPath [] (segmentsOf p) \<and> p \<noteq> [] \<and> p \<noteq> ''.'' \<and>
        folderIdCache s1 \<subseteq>\<^sub>m folderIdCache s2 \<longrightarrow>
          ensureFolderPathExists E' p s2 = (Inr i, s2)))
 \<and> (ensureFolderPathExists E p s = (r, s3) \<longrightarrow>
       folderIdCache s \<subseteq>\<^sub>m folderIdCache s3 \<and>
       (folderIdCache s [] = None \<longrightarrow> folderIdCache s3 [] = None))
 \<and> (folderIdCache s [] = None \<longrightarrow>
       ensureFolderPathExists E [] s = (Inr (folderId (settings s)), s))
 \<and> (performSync E toDrive fromDrive vaultFiles now s = (r', s') \<longrightarrow>
       (\<exists>evs. trace s' = trace s @ evs \<and> distinct (createdPaths evs)))"
proof (intro conjI impI)
  assume "ensureFolderPathExists E p s = (Inr i, s1)"
  then show "ensureFolderPathExists E' p s1 = (Inr i, s1)"
    by (rule ensureFolderPathExists_again)
next
  assume "ensureFolderPathExists E p s = (Inr i, s1)"
    and "p = foldl joinPath [] (segmentsOf p) \<and> p \<noteq> [] \<and> p \<noteq> ''.'' \<and>
        folderIdCache s1 \<subseteq>\<^sub>m folderIdCache s2"
  then show "ensureFolderPathExists E' p s2 = (Inr i, s2)"
    using ensureFolderPathExists_later [of E p s i s1 s2 E'] by blast
next
  assume "ensureFolderPathExists E p s = (r, s3)"
  then show "folderIdCache s \<subseteq>\<^sub>m folderIdCache s3"
    using ensureFolderPathExists_cache by blast
next
  assume "ensureFolderPathExists E p s = (r, s3)" "folderIdCache s [] = None"
  then show "folderIdCache s3 [] = None"
    using ensureFolderPathExists_cache by blast
next
  assume "folderIdCache s [] = None"
  then show "ensureFolderPathExists E [] s = (Inr (folderId (settings s)), s)"
    by (simp add: ensureFolderPathExists_def)
next
  assume "performSync E toDrive fromDrive vaultFiles now s = (r', s')"
  then show "\<exists>evs. trace s' = trace s @ evs \<and> distinct (createdPaths evs)"
    by (rule createdOnce_performSync)
qed

theorem ensureFolderPathExists_memoized_witness:
  "fst (ensureFolderPathExists (worldOk [] ''X'' ''Y'') ''notes/2024/jan''
          (pluginState Overwrite 1700000000000)) = Inr ''folder-iiiii'' \<and>
   ensureFolderPathExists worldCreateFails ''notes/2024/jan''
       (snd (ensureFolderPathExists (worldOk [] ''X'' ''Y'') ''notes/2024/jan''
          (pluginState Overwrite 1700000000000)))
     = (Inr ''folder-iiiii'',
        snd (ensureFolderPathExists (worldOk [] ''X'' ''Y'') ''notes/2024/jan''
          (pluginState Overwrite 1700000000000))) \<and>
   folderIdCache (pluginState Overwrite 1700000000000) [] = None \<and>
   ensureFolderPathExists (worldOk [] ''X'' ''Y'') [] (pluginState Overwrite 1700000000000)
     = (Inr ''root'', pluginState Overwrite 1700000000000) \<and>
   createdPaths (trace (snd (performSync (worldOk [] ''X'' ''Y'') True True
        [localDeep ''entry.md'', localDeep ''other.md''] 1700000020000
        (pluginState Overwrite 1700000000000))))
     = [''notes'', ''notes/2024'', ''notes/2024/jan''] \<and>
   (\<exists>evs. trace (snd (performSync (worldOk [] ''X'' ''Y'') True True
        [localDeep ''entry.md'', localDeep ''other.md''] 1700000020000
        (pluginState Overwrite 1700000000000)))
      = trace (pluginState Overwrite 1700000000000) @ evs \<and> distinct (createdPaths evs))"
proof -
  let ?E = "worldOk [] ''X'' ''Y''"
  let ?s = "pluginState Overwrite 1700000000000"
  let ?first = "ensureFolderPathExists ?E ''notes/2024/jan'' ?s"
  let ?run = "performSync ?E True True [localDeep ''entry.md'', localDeep ''other.md'']
        1700000020000 ?s"
  have f1: "fst ?first = Inr ''folder-iiiii''" by code_simp
  then have first: "?first = (Inr ''folder-iiiii'', snd ?first)"
    by (metis prod.collapse)
  have none: "folderIdCache ?s [] = None" by (simp add: pluginState_def)
  have root: "folderId (settings ?s) = ''root''" by (simp add: pluginState_def DEFAULT_SETTINGS_def)
  have cr: "createdPaths (trace (snd ?run)) = [''notes'', ''notes/2024'', ''notes/2024/jan'']"
    by code_simp
  have run: "?run = (fst ?run, snd ?run)" by simp
  note T1 = ensureFolderPathExists_memoized [of ?E "''notes/2024/jan''" ?s "''folder-iiiii''"
      "snd ?first" worldCreateFails ?s "Inr ''folder-iiiii''" "snd ?first" True True
      "[localDeep ''entry.md'', localDeep ''other.md'']" 1700000020000 "fst ?run" "snd ?run"]
  from T1 first have again: "ensureFolderPathExists worldCreateFails ''notes/2024/jan'' (snd ?first)
      = (Inr ''folder-iiiii'', snd ?first)" by blast
  from T1 none root have empty: "ensureFolderPathExists ?E [] ?s = (Inr ''root'', ?s)" by simp
  from T1 run have once: "\<exists>evs. trace (snd ?run) = trace ?s @ evs \<and> distinct (createdPaths evs)"
    by blast
  show ?thesis by (intro conjI f1 again none empty cr once)
qed

section \<open>One-way runs and downloads\<close>

text \<open>
  Claim C6, as amended. In a run with \<open>toDrive\<close> set and \<open>fromDrive\<close> not set, under a
  conflict policy other than keep-remote, \<open>downloadFile\<close> is never called: the calls of the
  run contain no \<open>DownloadGet\<close>. (Under \<open>ask\<close> the run only opens the modal. The content
  comparison may still fetch the remote content of a conflict candidate.)
\<close>

theorem oneWay_no_download:
  assumes "conflictResolution (settings s) \<noteq> KeepRemote"
    and "performSync E True False vaultFiles now s = (r, s')"
  shows "\<exists>evs. trace s' = trace s @ evs \<and> (\<forall>d. DownloadGet d \<notin> set evs)"
proof -
  have "\<exists>evs. trace s' = trace s @ evs \<and> list_all (\<lambda>e. \<not> isDownloadGet e) evs"
    by (rule guarded_performSync [where K = "\<lambda>x. conflictResolution x \<noteq> KeepRemote",
          OF _ _ _ _ assms(1) assms(2)]) simp_all
  then show ?thesis
    by (auto simp: list_all_iff isDownloadGet_def split: event.splits)
qed

theorem oneWay_no_download_witness:
  "conflictResolution (settings (pluginState Overwrite 1700000000000)) \<noteq> KeepRemote \<and>
   (\<exists>evs. trace (snd (performSync (worldOk [remoteNote 1700000010000] ''X'' ''Y'') True False
                 [localNote 1700000010000] 1700000020000 (pluginState Overwrite 1700000000000)))
            = trace (pluginState Overwrite 1700000000000) @ evs \<and>
          (\<forall>d. DownloadGet d \<notin> set evs))"
proof -
  have h: "conflictResolution (settings (pluginState Overwrite 1700000000000)) \<noteq> KeepRemote"
    by (simp add: pluginState_def)
  show ?thesis
    using h oneWay_no_download [OF h,
        of "worldOk [remoteNote 1700000010000] ''X'' ''Y''" "[localNote 1700000010000]"
           1700000020000
           "fst (performSync (worldOk [remoteNote 1700000010000] ''X'' ''Y'') True False
                 [localNote 1700000010000] 1700000020000 (pluginState Overwrite 1700000000000))"
           "snd (performSync (worldOk [remoteNote 1700000010000] ''X'' ''Y'') True False
                 [localNote 1700000010000] 1700000020000 (pluginState Overwrite 1700000000000))"]
    by simp
qed

text \<open>
  Claim C6 as stated fails under keep-remote: a one-way run to Drive that meets a
  conflict with different contents downloads the remote version.
\<close>

theorem oneWay_keepRemote_downloads:
  "DownloadGet (remoteNote 1700000010000)
     \<in> set (trace (snd (performSync (worldOk [remoteNote 1700000010000] ''X'' ''Y'') True False
                 [localNote 1700000010000] 1700000020000 (pluginState KeepRemote 1700000000000))))"
  by code_simp

section \<open>A run from Drive only\<close>

text \<open>
  Claim C7 does not hold of the code. In a run with \<open>toDrive\<close> not set and \<open>fromDrive\<close> set,
  a path modified on both sides after the watermark, with different contents, is passed
  over: the vault loop does nothing without \<open>toDrive\<close>, and the Drive loop skips the path
  as "already handled as conflict in vault files loop". No content is compared, no
  conflict is counted, nothing is transferred, and the watermark advances.
\<close>

theorem fromDriveOnly_conflict_skipped:
  "tf_mtime (localNote 1700000010000) > 1700000000000 + 2000 \<and>
   df_modifiedTime (remoteNote 1700000010000) > 1700000000000 + 2000 \<and>
   fst (performSync (worldOk [remoteNote 1700000010000] ''X'' ''Y'') False True
          [localNote 1700000010000] 1700000020000 (pluginState Ask 1700000000000))
     = Synced noCounts \<and>
   trace (snd (performSync (worldOk [remoteNote 1700000010000] ''X'' ''Y'') False True
          [localNote 1700000010000] 1700000020000 (pluginState Ask 1700000000000)))
     = [GetAccessToken, ValidateFolder, ListDrive, GetAccessToken, GetAccessToken, SaveData] \<and>
   lastSyncTime (saved (snd (performSync (worldOk [remoteNote 1700000010000] ''X'' ''Y'') False True
          [localNote 1700000010000] 1700000020000 (pluginState Ask 1700000000000))))
     = 1700000020000"
  by code_simp

section \<open>Failures and the watermark\<close>

text \<open>
  Claim C8, as amended. When a call made on behalf of an upload, a download or a
  delete-remote does not let its caller go on (a failed read or write, a rejected or
  non-OK upload, download or folder creation, a rejected folder lookup or delete
  request), that call is the last call of the run, the run ends in the \<open>catch\<close> of
  \<open>performSync\<close>, and the settings in memory and on disk are what they were: the watermark
  is not advanced. A delete request answered with a non-OK status is not such a failure:
  it is only logged (see the counterexample).
\<close>

theorem failed_transfer_aborts_run:
  assumes run: "performSync E toDrive fromDrive vaultFiles now s = (r, s')"
    and i: "length (trace s) \<le> i" "i < length (trace s')"
    and call: "isTransferCall (trace s' ! i)"
    and fails: "\<not> proceeds E i (trace s' ! i)"
  shows "Suc i = length (trace s') \<and> (\<exists>e. r = SyncFailed e) \<and>
         settings s' = settings s \<and> saved s' = saved s"
proof -
  let ?s2 = "logEvent ValidateFolder (logEvent GetAccessToken s)"
  have t2: "trace ?s2 = trace s @ [GetAccessToken, ValidateFolder]"
    by (simp add: logEvent_def)
  have early: False if "i < length (trace ?s2)" "trace s' ! i = trace ?s2 ! i"
  proof -
    have "trace ?s2 ! i = GetAccessToken \<or> trace ?s2 ! i = ValidateFolder"
      using that(1) i(1) by (auto simp: t2 nth_append nth_Cons split: nat.splits)
    then show False using call that(2) by (auto simp: isTransferCall_def)
  qed
  from run show ?thesis
  proof (cases rule: performSync_cases)
    case unconfigured
    then show ?thesis using i by simp
  next
    case (token e)
    then have "trace s' ! i = GetAccessToken"
      using i by (auto simp: logEvent_def nth_append)
    then show ?thesis using call by (simp add: isTransferCall_def)
  next
    case (invalid e)
    then have "trace s' ! i = GetAccessToken \<or> trace s' ! i = ValidateFolder"
      using i by (auto simp: logEvent_def nth_append nth_Cons split: nat.splits)
    then show ?thesis using call by (auto simp: isTransferCall_def)
  next
    case (aborted e)
    from transferring_syncTransfers [OF aborted(2)]
    obtain evs where evs: "trace s' = trace ?s2 @ evs"
      and ok: "\<forall>j. Suc j < length evs \<longrightarrow> proceeds E (length (trace ?s2) + j) (evs ! j)"
      and fr: "settings s' = settings ?s2" "saved s' = saved ?s2"
      by (auto simp: stopped_def)
    have ge: "length (trace ?s2) \<le> i"
    proof (rule ccontr)
      assume "\<not> length (trace ?s2) \<le> i"
      then have "i < length (trace ?s2)" by simp
      moreover from this have "trace s' ! i = trace ?s2 ! i" by (simp add: evs nth_append)
      ultimately show False by (rule early)
    qed
    define j where "j = i - length (trace ?s2)"
    have j: "i = length (trace ?s2) + j" "j < length evs" "trace s' ! i = evs ! j"
      using ge i(2) by (auto simp: j_def evs nth_append)
    have "\<not> Suc j < length evs" using ok fails j by auto
    then have "Suc i = length (trace s')" using j by (simp add: evs)
    then show ?thesis using aborted(1) fr by (simp add: logEvent_def)
  next
    case (unsaved c s3)
    from transferring_syncTransfers [OF unsaved(2)]
    obtain evs where evs: "trace s3 = trace ?s2 @ evs"
      and ok: "\<forall>j<length evs. proceeds E (length (trace ?s2) + j) (evs ! j)"
      by (auto simp: transferring_def)
    have tr: "trace s' = trace s3 @ [SaveData]" by (simp add: unsaved(3) logEvent_def)
    have False
    proof (cases "i < length (trace ?s2)")
      case True
      then show ?thesis using early by (simp add: tr evs nth_append)
    next
      case False
      show ?thesis
      proof (cases "i < length (trace s3)")
        case True
        define j where "j = i - length (trace ?s2)"
        have "i = length (trace ?s2) + j" "j < length evs" "trace s' ! i = evs ! j"
          using False True by (auto simp: j_def tr evs nth_append)
        then show ?thesis using ok fails by auto
      next
        case False
        then have "trace s' ! i = SaveData" using i(2) by (auto simp: tr nth_append)
        then show ?thesis using call by (simp add: isTransferCall_def)
      qed
    qed
    then show ?thesis ..
  next
    case (synced c s3)
    from transferring_syncTransfers [OF synced(2)]
    obtain evs where evs: "trace s3 = trace ?s2 @ evs"
      and ok: "\<forall>j<length evs. proceeds E (length (trace ?s2) + j) (evs ! j)"
      by (auto simp: transferring_def)
    have tr: "trace s' = trace s3 @ [SaveData]" by (simp add: synced(3) logEvent_def)
    have False
    proof (cases "i < length (trace ?s2)")
      case True
      then show ?thesis using early by (simp add: tr evs nth_append)
    next
      case False
      show ?thesis
      proof (cases "i < length (trace s3)")
        case True
        define j where "j = i - length (trace ?s2)"
        have "i = length (trace ?s2) + j" "j < length evs" "trace s' ! i = evs ! j"
          using False True by (auto simp: j_def tr evs nth_append)
        then show ?thesis using ok fails by auto
      next
        case False
        then have "trace s' ! i = SaveData" using i(2) by (auto simp: tr nth_append)
        then show ?thesis using call by (simp add: isTransferCall_def)
      qed
    qed
    then show ?thesis ..
  qed
qed

theorem failed_transfer_aborts_run_witness:
  "length (trace (pluginState Overwrite 1700000000000)) \<le> 5 \<and>
   5 < length (trace (snd (performSync worldUploadFails True True [localNote 1700000010000]
                 1700000020000 (pluginState Overwrite 1700000000000)))) \<and>
   trace (snd (performSync worldUploadFails True True [localNote 1700000010000]
                 1700000020000 (pluginState Overwrite 1700000000000))) ! 5
     = UploadCreate (localNote 1700000010000) ''root'' \<and>
   upload_r worldUploadFails 5 = NotOk 500 \<and>
   Suc 5 = length (trace (snd (performSync worldUploadFails True True [localNote 1700000010000]
                 1700000020000 (pluginState Overwrite 1700000000000)))) \<and>
   (\<exists>e. fst (performSync worldUploadFails True True [localNote 1700000010000]
                 1700000020000 (pluginState Overwrite 1700000000000)) = SyncFailed e) \<and>
   settings (snd (performSync worldUploadFails True True [localNote 1700000010000]
                 1700000020000 (pluginState Overwrite 1700000000000)))
     = settings (pluginState Overwrite 1700000000000) \<and>
   saved (snd (performSync worldUploadFails True True [localNote 1700000010000]
                 1700000020000 (pluginState Overwrite 1700000000000)))
     = saved (pluginState Overwrite 1700000000000)"
proof -
  let ?run = "performSync worldUploadFails True True [localNote 1700000010000]
                 1700000020000 (pluginState Overwrite 1700000000000)"
  have tr: "trace (snd ?run) =
      [GetAccessToken, ValidateFolder, ListDrive, GetAccessToken,
       VaultRead (localNote 1700000010000), UploadCreate (localNote 1700000010000) ''root'']"
    by code_simp
  have rep: "upload_r worldUploadFails 5 = NotOk 500"
    by (simp add: worldUploadFails_def)
  have t0: "trace (pluginState Overwrite 1700000000000) = []"
    by (simp add: pluginState_def)
  have h1: "length (trace (pluginState Overwrite 1700000000000)) \<le> 5" by (simp add: t0)
  have h2: "5 < length (trace (snd ?run))" by (simp add: tr)
  have h3: "isTransferCall (trace (snd ?run) ! 5)" by (simp add: tr isTransferCall_def)
  have h4: "\<not> proceeds worldUploadFails 5 (trace (snd ?run) ! 5)"
    by (simp add: tr proceeds_def rep isOk_def)
  have run: "?run = (fst ?run, snd ?run)" by simp
  from failed_transfer_aborts_run [OF run h1 h2 h3 h4] show ?thesis
    using tr rep t0 by simp
qed

text \<open>
  Claim C8 as stated fails for delete-remote: when Drive answers the delete requests
  with a non-OK status, the run goes on (here to a second delete request), completes,
  and advances the watermark.
\<close>

theorem failed_delete_does_not_abort:
  "delete_r worldDeleteFails 5 = NotOk 500 \<and>
   trace (snd (performSync worldDeleteFails True True [] 1700000020000
                 (pluginState Overwrite 1700000000000)))
     = [GetAccessToken, ValidateFolder, ListDrive, GetAccessToken, GetAccessToken,
        DeleteReq (remoteNote 1600000000000), DeleteReq (remoteOther 1600000000000), SaveData] \<and>
   fst (performSync worldDeleteFails True True [] 1700000020000
                 (pluginState Overwrite 1700000000000)) = Synced noCounts \<and>
   lastSyncTime (saved (snd (performSync worldDeleteFails True True [] 1700000020000
                 (pluginState Overwrite 1700000000000)))) = 1700000020000"
  by code_simp

section \<open>Failures during folder path materialization\<close>

text \<open>
  Claim C9, as amended. During \<open>ensureFolderPathExists\<close> only folder lookups and folder
  creations are requested. A lookup that is rejected and a creation that is rejected or
  answered with a non-OK status end the call with an error, as its last request; the
  vault loop then returns that error without any upload. A lookup answered with a non-OK
  status is not an error: it counts as "no such folder", and the folder is created under
  the current parent.
\<close>

theorem folder_failures_propagate:
  "(ensureFolderPathExists E p s = (r, s1) \<longrightarrow>
      (\<exists>evs. trace s1 = trace s @ evs \<and> list_all isFolderEvent evs \<and>
         (\<forall>i<length evs. \<not> proceeds E (length (trace s) + i) (evs ! i) \<longrightarrow>
            Suc i = length evs \<and> (\<exists>e. r = Inl e))))
 \<and> (ensureFolderPathExists E (folderOf (tf_path f)) s = (Inl e, s1) \<and> toDrive \<and>
     (dmap (tf_path f) = None \<or>
      (\<exists>d. dmap (tf_path f) = Some d \<and> tf_mtime f > W + 2000 \<and> \<not> df_modifiedTime d > W + 2000))
     \<longrightarrow> vaultStep E toDrive W dmap f c s = (Inl e, s1))
 \<and> (folderIdCache s (joinPath cur seg) = None \<and> find_r E (length (trace s)) = NotOk code \<longrightarrow>
      ensureSegments E (seg # rest) par cur s =
        bindE (createDriveFolder E (joinPath cur seg) seg par)
          (\<lambda>newFolderId. bindE (cacheSet (joinPath cur seg) newFolderId)
             (\<lambda>_. ensureSegments E rest newFolderId (joinPath cur seg)))
          (logEvent (FindFolder seg par) s))"
proof (intro conjI impI)
  assume run: "ensureFolderPathExists E p s = (r, s1)"
  let ?I = "transferring (settings s) (saved s) E (trace s)"
  let ?X = "stopped (settings s) (saved s) E (trace s)"
  let ?G = "guarded (\<lambda>x. True) (trace s) isFolderEvent"
  have "keeps ?I ?X (ensureFolderPathExists E p)"
    by (rule ensureFolderPathExists_keeps [OF transferring_tolerates transferring_cacheFree])
  moreover have "?I s" by (simp add: transferring_def)
  ultimately have a: "case r of Inl e \<Rightarrow> ?X s1 | Inr x \<Rightarrow> ?I s1"
    using run by (rule keepsD)
  have "keeps ?G ?G (ensureFolderPathExists E p)"
    by (rule ensureFolderPathExists_keeps [OF guarded_tolerates guarded_cacheFree])
  moreover have "?G s" by (simp add: guarded_def onlyLogged_def)
  ultimately have "case r of Inl e \<Rightarrow> ?G s1 | Inr x \<Rightarrow> ?G s1"
    using run by (rule keepsD)
  then obtain evs where evs: "trace s1 = trace s @ evs" "list_all isFolderEvent evs"
    by (auto simp: guarded_def onlyLogged_def split: sum.splits)
  have "Suc i = length evs \<and> (\<exists>e. r = Inl e)"
    if "i < length evs" "\<not> proceeds E (length (trace s) + i) (evs ! i)" for i
  proof (cases r)
    case (Inl e)
    then have "\<forall>j. Suc j < length evs \<longrightarrow> proceeds E (length (trace s) + j) (evs ! j)"
      using a evs(1) by (auto simp: stopped_def)
    then have "\<not> Suc i < length evs" using that(2) by blast
    then show ?thesis using that(1) Inl by simp
  next
    case (Inr x)
    then have "\<forall>j<length evs. proceeds E (length (trace s) + j) (evs ! j)"
      using a evs(1) by (auto simp: transferring_def)
    then show ?thesis using that by blast
  qed
  then show "\<exists>evs. trace s1 = trace s @ evs \<and> list_all isFolderEvent evs \<and>
         (\<forall>i<length evs. \<not> proceeds E (length (trace s) + i) (evs ! i) \<longrightarrow>
            Suc i = length evs \<and> (\<exists>e. r = Inl e))"
    using evs by blast
next
  assume "ensureFolderPathExists E (folderOf (tf_path f)) s = (Inl e, s1) \<and> toDrive \<and>
     (dmap (tf_path f) = None \<or>
      (\<exists>d. dmap (tf_path f) = Some d \<and> tf_mtime f > W + 2000 \<and> \<not> df_modifiedTime d > W + 2000))"
  then show "vaultStep E toDrive W dmap f c s = (Inl e, s1)"
    by (auto simp: vaultStep_def bindE_def)
next
  assume "folderIdCache s (joinPath cur seg) = None \<and> find_r E (length (trace s)) = NotOk code"
  then show "ensureSegments E (seg # rest) par cur s =
        bindE (createDriveFolder E (joinPath cur seg) seg par)
          (\<lambda>newFolderId. bindE (cacheSet (joinPath cur seg) newFolderId)
             (\<lambda>_. ensureSegments E rest newFolderId (joinPath cur seg)))
          (logEvent (FindFolder seg par) s)"
    by (simp add: Let_def bindE_def findDriveFolder_def request_def logEvent_def)
qed

theorem folder_failures_propagate_witness:
  "ensureFolderPathExists worldCreateFails (folderOf (tf_path localNested))
       (pluginState Overwrite 1700000000000)
     = (Inl (CreateFolderFailed 403),
        snd (ensureFolderPathExists worldCreateFails (folderOf (tf_path localNested))
               (pluginState Overwrite 1700000000000))) \<and>
   trace (snd (ensureFolderPathExists worldCreateFails (folderOf (tf_path localNested))
               (pluginState Overwrite 1700000000000)))
     = [FindFolder ''notes'' ''root'', CreateFolder ''notes'' ''notes'' ''root''] \<and>
   \<not> proceeds worldCreateFails 1 (CreateFolder ''notes'' ''notes'' ''root'') \<and>
   (\<exists>evs. trace (snd (ensureFolderPathExists worldCreateFails (folderOf (tf_path localNested))
               (pluginState Overwrite 1700000000000)))
            = trace (pluginState Overwrite 1700000000000) @ evs \<and>
          list_all isFolderEvent evs) \<and>
   Map.empty (tf_path localNested) = (None :: dfile option) \<and>
   vaultStep worldCreateFails True 1700000000000 Map.empty localNested noCounts
       (pluginState Overwrite 1700000000000)
     = (Inl (CreateFolderFailed 403),
        snd (ensureFolderPathExists worldCreateFails (folderOf (tf_path localNested))
               (pluginState Overwrite 1700000000000)))"
proof -
  let ?s = "pluginState Overwrite 1700000000000"
  let ?m = "ensureFolderPathExists worldCreateFails (folderOf (tf_path localNested)) ?s"
  have f: "fst ?m = Inl (CreateFolderFailed 403)" by code_simp
  then have m: "?m = (Inl (CreateFolderFailed 403), snd ?m)" by (metis prod.collapse)
  have tr: "trace (snd ?m) = [FindFolder ''notes'' ''root'', CreateFolder ''notes'' ''notes'' ''root'']"
    by code_simp
  have absent: "Map.empty (tf_path localNested) = (None :: dfile option)" by simp
  note T = folder_failures_propagate [of worldCreateFails "folderOf (tf_path localNested)" ?s
      "Inl (CreateFolderFailed 403)" "snd ?m" localNested "CreateFolderFailed 403" True
      Map.empty 1700000000000 noCounts]
  have np: "\<not> proceeds worldCreateFails 1 (CreateFolder ''notes'' ''notes'' ''root'')"
    by (simp add: proceeds_def isOk_def worldCreateFails_def)
  from T m have fe: "\<exists>evs. trace (snd ?m) = trace ?s @ evs \<and> list_all isFolderEvent evs"
    by blast
  from T m have vs: "vaultStep worldCreateFails True 1700000000000 Map.empty localNested noCounts ?s
     = (Inl (CreateFolderFailed 403), snd ?m)" by simp
  show ?thesis by (intro conjI m tr np fe absent vs)
qed

text \<open>
  Claim C9 as stated fails for the listing call: when the folder lookup is answered with
  status 500, nothing propagates. The folder is created and the file is uploaded into it.
\<close>

theorem failed_lookup_does_not_propagate:
  "find_r worldFindFails 4 = NotOk 500 \<and>
   fst (performSync worldFindFails True True [localNested] 1700000020000
          (pluginState Overwrite 1700000000000)) = Synced (noCounts\<lparr>uploaded := 1\<rparr>) \<and>
   trace (snd (performSync worldFindFails True True [localNested] 1700000020000
          (pluginState Overwrite 1700000000000)))
     = [GetAccessToken, ValidateFolder, ListDrive, GetAccessToken,
        FindFolder ''notes'' ''root'', CreateFolder ''notes'' ''notes'' ''root'',
        VaultRead localNested, UploadCreate localNested ''folder-iiiii'',
        GetAccessToken, SaveData]"
  by code_simp

section \<open>The first run\<close>



end
